theory Spec2Isabelle
  imports Complex_Main
begin

section \<open>Data model of OrgChartCanvas.tsx\<close>

text \<open>
  The TypeScript type \<^verbatim>\<open>Node\<close>. Fields whose source name is already a constant or a
  keyword of HOL carry the prefix \<open>node_\<close> (\<^verbatim>\<open>id\<close>, \<^verbatim>\<open>value\<close>, \<^verbatim>\<open>x\<close>, \<^verbatim>\<open>y\<close>).
  Ids, depths and child counts are non-negative integers; \<^verbatim>\<open>value\<close> is the result of
  \<^verbatim>\<open>Math.floor\<close>, an integer; coordinates are real numbers (JavaScript doubles, read
  in exact arithmetic).
\<close>

record node =
  node_id :: nat
  name :: string
  parentId :: "nat option"
  level :: string
  node_value :: int
  depth :: nat
  node_x :: real
  node_y :: real
  hasChildren :: bool

text \<open>The camera \<^verbatim>\<open>transform.current\<close>, initially \<^verbatim>\<open>{ scale: 0.6, tx: 0, ty: 80 }\<close>.\<close>

record transform =
  scale :: real
  tx :: real
  ty :: real

definition transform_init :: transform where
  "transform_init = \<lparr>scale = 0.6, tx = 0, ty = 80\<rparr>"

text \<open>The part of \<^verbatim>\<open>getBoundingClientRect()\<close> that the component reads.\<close>

record rect =
  rect_left :: real
  rect_top :: real
  rect_width :: real
  rect_height :: real

text \<open>
  The only exception that the modelled code can raise: a property access on \<^verbatim>\<open>undefined\<close>
  or \<^verbatim>\<open>null\<close> (a lookup that found nothing, behind a non-null assertion \<^verbatim>\<open>!\<close>).
\<close>

datatype error = TypeError

section \<open>Seeded random numbers\<close>

text \<open>
  \<^verbatim>\<open>randSeeded\<close>: the state \<open>s\<close> is an unsigned 32-bit integer (\<^verbatim>\<open>seed >>> 0\<close>), kept as a
  natural number below \<open>2^32\<close> with the wrap-around of \<^verbatim>\<open>>>> 0\<close> written out. The product
  \<^verbatim>\<open>s * 1664525 + 1013904223\<close> stays below \<open>2^53\<close>, so the double arithmetic of the source is
  exact. A call of the returned closure is \<open>rnd\<close>: it yields the draw and the next state.
\<close>

definition randSeeded :: "int \<Rightarrow> nat" where
  "randSeeded seed = nat (seed mod 2 ^ 32)"

definition rnd :: "nat \<Rightarrow> real \<times> nat" where
  "rnd s = (let s' = (s * 1664525 + 1013904223) mod 2 ^ 32 in (real s' / 2 ^ 32, s'))"

section \<open>Strings\<close>

definition digit_char :: "nat \<Rightarrow> char" where
  "digit_char d = ''0123456789'' ! d"

text \<open>\<^verbatim>\<open>String(n)\<close> and \<^verbatim>\<open>n.toString()\<close> of a non-negative integer: its decimal digits.\<close>

fun String_nat :: "nat \<Rightarrow> string" where
  "String_nat n = (if n < 10 then [digit_char n] else String_nat (n div 10) @ [digit_char (n mod 10)])"

declare String_nat.simps [simp del]

definition padStart :: "string \<Rightarrow> nat \<Rightarrow> char \<Rightarrow> string" where
  "padStart s n c = replicate (n - length s) c @ s"

text \<open>
  A JavaScript string in general (the search text, and every string that \<^verbatim>\<open>trim\<close>,
  \<^verbatim>\<open>toLowerCase\<close>, \<^verbatim>\<open>includes\<close> and \<^verbatim>\<open>===\<close> work on) is the list of its UTF-16 code units.
  The names and the decimal ids of the nodes hold ASCII characters only; \<open>units\<close> gives their
  code units.
\<close>

type_synonym js_string = "nat list"

definition units :: "string \<Rightarrow> js_string" where
  "units s = map of_char s"

text \<open>
  \<^verbatim>\<open>trim\<close> drops leading and trailing white space and line terminators: U+0009 to U+000D,
  U+0020, U+00A0, U+1680, U+2000 to U+200A, U+2028, U+2029, U+202F, U+205F, U+3000, U+FEFF.
\<close>

definition is_space :: "nat \<Rightarrow> bool" where
  "is_space c =
     (c \<in> set [0x0009, 0x000A, 0x000B, 0x000C, 0x000D, 0x0020, 0x00A0, 0x1680,
                0x2028, 0x2029, 0x202F, 0x205F, 0x3000, 0xFEFF]
      \<or> (0x2000 \<le> c \<and> c \<le> 0x200A))"

definition trim :: "js_string \<Rightarrow> js_string" where
  "trim s = rev (dropWhile is_space (rev (dropWhile is_space s)))"

fun startsWith :: "'a list \<Rightarrow> 'a list \<Rightarrow> bool" where
  "startsWith s [] = True"
| "startsWith [] (c # q) = False"
| "startsWith (d # s) (c # q) = (d = c \<and> startsWith s q)"

text \<open>\<^verbatim>\<open>s.includes(q)\<close>: \<open>q\<close> occurs in \<open>s\<close> as a contiguous piece.\<close>

fun includes_str :: "'a list \<Rightarrow> 'a list \<Rightarrow> bool" where
  "includes_str [] q = startsWith [] q"
| "includes_str (d # s) q = (startsWith (d # s) q \<or> includes_str s q)"

section \<open>generateTree\<close>

text \<open>
  The mutable state of the generation loop: the array \<^verbatim>\<open>nodes\<close>, the map \<^verbatim>\<open>childCount\<close>
  and the state of the random number generator.
\<close>

record gen_state =
  g_nodes :: "node list"
  g_childCount :: "nat \<rightharpoonup> nat"
  g_rng :: nat

definition root_node :: node where
  "root_node = \<lparr>node_id = 1, name = ''ROOT'', parentId = None, level = ''A'', node_value = 0,
     depth = 0, node_x = 0, node_y = 0, hasChildren = True\<rparr>"

text \<open>\<^verbatim>\<open>childCount.get(pid)||0\<close>\<close>

definition childCount_get :: "(nat \<rightharpoonup> nat) \<Rightarrow> nat \<Rightarrow> nat" where
  "childCount_get cc pid = (case cc pid of None \<Rightarrow> 0 | Some c \<Rightarrow> c)"

text \<open>
  The \<^verbatim>\<open>for\<close> loop of \<^verbatim>\<open>pickParentId\<close>, by the number of tries that are left; \<open>len\<close> is
  \<^verbatim>\<open>nodes.length\<close>. \<^verbatim>\<open>Math.pow\<close> is read as the real power \<open>powr\<close>.
\<close>

fun pickParentId_tries :: "int \<Rightarrow> nat \<Rightarrow> (nat \<rightharpoonup> nat) \<Rightarrow> nat \<Rightarrow> nat \<Rightarrow> nat \<Rightarrow> nat \<times> nat" where
  "pickParentId_tries maxChildren len cc 0 pid s = (pid, s)"
| "pickParentId_tries maxChildren len cc (Suc k) pid s =
     (let (r, s') = rnd s;
          biased = 1 + \<lfloor>(r powr 1.2) * real len\<rfloor>;
          pid' = nat (max 1 (min (int len) biased))
      in if int (childCount_get cc pid') < maxChildren then (pid', s')
         else pickParentId_tries maxChildren len cc k pid' s')"

definition pickParentId :: "int \<Rightarrow> gen_state \<Rightarrow> nat \<times> gen_state" where
  "pickParentId maxChildren g =
     (let (pid, s') = pickParentId_tries maxChildren (length (g_nodes g)) (g_childCount g) 8 1 (g_rng g)
      in (pid, g\<lparr>g_childCount := (g_childCount g)(pid \<mapsto> childCount_get (g_childCount g) pid + 1),
                  g_rng := s'\<rparr>))"

text \<open>
  \<^verbatim>\<open>rnd()<0.15?"S": rnd()<0.4?"A": rnd()<0.7?"B":"C"\<close>: each test that is reached calls
  \<^verbatim>\<open>rnd()\<close> again.
\<close>

definition gen_level :: "nat \<Rightarrow> string \<times> nat" where
  "gen_level s =
     (let (r1, s1) = rnd s in
      if r1 < 0.15 then (''S'', s1)
      else let (r2, s2) = rnd s1 in
      if r2 < 0.4 then (''A'', s2)
      else let (r3, s3) = rnd s2 in
      if r3 < 0.7 then (''B'', s3) else (''C'', s3))"

text \<open>\<^verbatim>\<open>Math.floor((rnd()**0.3) * 200000)\<close>\<close>

definition gen_value :: "nat \<Rightarrow> int \<times> nat" where
  "gen_value s = (let (r, s') = rnd s in (\<lfloor>(r powr 0.3) * 200000\<rfloor>, s'))"

definition gen_name :: "nat \<Rightarrow> string" where
  "gen_name i = ''M'' @ padStart (String_nat i) 5 (CHR ''0'')"

text \<open>The body of the loop \<^verbatim>\<open>for(let id=2; id<=total; id++)\<close>, and the loop.\<close>

definition generate_node :: "int \<Rightarrow> nat \<Rightarrow> gen_state \<Rightarrow> gen_state" where
  "generate_node maxChildren i g =
     (let (pid, g1) = pickParentId maxChildren g;
          (lv, s2) = gen_level (g_rng g1);
          (v, s3) = gen_value s2
      in g1\<lparr>g_nodes := g_nodes g1 @
               [\<lparr>node_id = i, name = gen_name i, parentId = Some pid, level = lv, node_value = v,
                 depth = 0, node_x = 0, node_y = 0, hasChildren = True\<rparr>],
             g_rng := s3\<rparr>)"

function generate_loop :: "int \<Rightarrow> int \<Rightarrow> nat \<Rightarrow> gen_state \<Rightarrow> gen_state" where
  "generate_loop total_n maxChildren i g =
     (if int i \<le> total_n then generate_loop total_n maxChildren (Suc i) (generate_node maxChildren i g)
      else g)"
  by pat_completeness auto
termination
  by (relation "measure (\<lambda>(total_n, maxChildren, i, g). nat (total_n + 1 - int i))") auto

declare generate_loop.simps [simp del]

subsection \<open>Depth by breadth-first search\<close>

text \<open>
  The node objects are shared between \<^verbatim>\<open>nodes\<close>, \<^verbatim>\<open>byId\<close> and the layers, and are updated
  in place. The array \<^verbatim>\<open>nodes\<close> is the store: an object is addressed by its index in it.
  \<^verbatim>\<open>byId\<close> maps an id to the address of the last node with that id.
\<close>

definition mk_byId :: "node list \<Rightarrow> (nat \<rightharpoonup> nat)" where
  "mk_byId ns = fold (\<lambda>a m. m(node_id (ns ! a) \<mapsto> a)) [0..<length ns] Map.empty"

text \<open>\<^verbatim>\<open>childrenMap.get(pid) || []\<close>\<close>

definition kids_of :: "(nat \<rightharpoonup> nat list) \<Rightarrow> nat \<Rightarrow> nat list" where
  "kids_of m pid = (case m pid of None \<Rightarrow> [] | Some ks \<Rightarrow> ks)"

definition childrenMap_add :: "node \<Rightarrow> (nat \<rightharpoonup> nat list) \<Rightarrow> (nat \<rightharpoonup> nat list)" where
  "childrenMap_add n m =
     (case parentId n of None \<Rightarrow> m
      | Some p \<Rightarrow> m(p \<mapsto> (case m p of None \<Rightarrow> [] | Some ks \<Rightarrow> ks) @ [node_id n]))"

definition mk_childrenMap :: "node list \<Rightarrow> (nat \<rightharpoonup> nat list)" where
  "mk_childrenMap ns = fold childrenMap_add ns Map.empty"

text \<open>
  One round of the inner loop: \<^verbatim>\<open>c.depth = p.depth + 1; q.push(cid)\<close>. A lookup in \<^verbatim>\<open>byId\<close>
  that finds nothing makes the property access throw.
\<close>

definition visit_kid :: "(nat \<rightharpoonup> nat) \<Rightarrow> nat \<Rightarrow> nat \<Rightarrow> nat list \<times> node list \<Rightarrow> error + nat list \<times> node list" where
  "visit_kid byId pid cid st =
     (case st of (q, ns) \<Rightarrow>
        (case byId pid of None \<Rightarrow> Inl TypeError
         | Some pa \<Rightarrow>
            (case byId cid of None \<Rightarrow> Inl TypeError
             | Some ca \<Rightarrow> Inr (q @ [cid], ns[ca := (ns ! ca)\<lparr>depth := depth (ns ! pa) + 1\<rparr>]))))"

fun visit_kids :: "(nat \<rightharpoonup> nat) \<Rightarrow> nat \<Rightarrow> nat list \<Rightarrow> nat list \<times> node list \<Rightarrow> error + nat list \<times> node list" where
  "visit_kids byId pid [] st = Inr st"
| "visit_kids byId pid (cid # kids) st =
     (case visit_kid byId pid cid st of Inl e \<Rightarrow> Inl e
      | Inr st' \<Rightarrow> visit_kids byId pid kids st')"

text \<open>
  The loop \<^verbatim>\<open>while(q.length)\<close>. The source gives it no bound: a run that does not end has
  the value \<open>None\<close>, a run that throws the value \<open>Some (Inl e)\<close>.
\<close>

partial_function (option) bfs_depth ::
  "(nat \<rightharpoonup> nat) \<Rightarrow> (nat \<rightharpoonup> nat list) \<Rightarrow> nat list \<Rightarrow> node list \<Rightarrow> (error + node list) option" where
  "bfs_depth byId childrenMap q ns =
     (case q of [] \<Rightarrow> Some (Inr ns)
      | pid # rest \<Rightarrow>
          (case visit_kids byId pid (kids_of childrenMap pid) (rest, ns) of
             Inl e \<Rightarrow> Some (Inl e)
           | Inr (q', ns') \<Rightarrow> bfs_depth byId childrenMap q' ns'))"

subsection \<open>Layered layout\<close>

text \<open>
  \<^verbatim>\<open>layers\<close> is a \<^verbatim>\<open>Map\<close> from a depth to the array of the nodes of that depth; it is
  iterated in the order in which its keys were inserted: an association list, with the
  nodes given by their addresses.
\<close>

fun layers_push :: "nat \<Rightarrow> nat \<Rightarrow> (nat \<times> nat list) list \<Rightarrow> (nat \<times> nat list) list" where
  "layers_push d a [] = [(d, [a])]"
| "layers_push d a ((d', arr) # ls) =
     (if d = d' then (d', arr @ [a]) # ls else (d', arr) # layers_push d a ls)"

definition mk_layers :: "node list \<Rightarrow> (nat \<times> nat list) list" where
  "mk_layers ns = fold (\<lambda>a ls. layers_push (depth (ns ! a)) a ls) [0..<length ns] []"

definition rowGap :: real where "rowGap = 120"
definition colGapBase :: real where "colGapBase = 60"

definition place :: "nat \<Rightarrow> nat \<Rightarrow> real \<Rightarrow> nat list \<Rightarrow> nat \<Rightarrow> node list \<Rightarrow> node list" where
  "place d n width arr i ns =
     (let x = (real i + 0.5) * (width / real n) - width / 2;
          y = real d * rowGap
      in ns[arr ! i := (ns ! (arr ! i))\<lparr>node_x := x, node_y := y\<rparr>])"

definition layout_layer :: "nat \<times> nat list \<Rightarrow> node list \<Rightarrow> node list" where
  "layout_layer l ns =
     (case l of (d, arr) \<Rightarrow>
        let n = length arr;
            width = max (real n * colGapBase) 1200
        in fold (place d n width arr) [0..<n] ns)"

definition layout :: "node list \<Rightarrow> node list" where
  "layout ns = fold layout_layer (mk_layers ns) ns"

subsection \<open>hasChildren, and the whole function\<close>

definition mark_hasChildren :: "node list \<Rightarrow> node list" where
  "mark_hasChildren ns =
     (let hasChild = set (map (\<lambda>n. the (parentId n)) (filter (\<lambda>n. parentId n \<noteq> None) ns))
      in map (\<lambda>n. n\<lparr>hasChildren := node_id n \<in> hasChild\<rparr>) ns)"

text \<open>
  \<^verbatim>\<open>generateTree(total, maxChildren, seed)\<close>. The result is \<open>Some (Inr nodes)\<close> when the source
  returns the node list, \<open>Some (Inl e)\<close> when it throws, and \<open>None\<close> when it does not end.
\<close>

definition generateTree :: "int \<Rightarrow> int \<Rightarrow> int \<Rightarrow> (error + node list) option" where
  "generateTree total_n maxChildren seed =
     (let g0 = \<lparr>g_nodes = [root_node], g_childCount = [1 \<mapsto> 0], g_rng = randSeeded seed\<rparr>;
          g = generate_loop total_n maxChildren 2 g0;
          ns = g_nodes g;
          byId = mk_byId ns;
          childrenMap = mk_childrenMap ns;
          ns0 = ns[0 := (ns ! 0)\<lparr>depth := 0\<rparr>]
      in map_option (map_sum id (\<lambda>ns1. mark_hasChildren (layout ns1)))
           (bfs_depth byId childrenMap [1] ns0))"

section \<open>Camera\<close>

definition worldToScreen :: "transform \<Rightarrow> real \<Rightarrow> real \<Rightarrow> real \<times> real" where
  "worldToScreen t wx wy = (wx * scale t + tx t, wy * scale t + ty t)"

definition screenToWorld :: "transform \<Rightarrow> real \<Rightarrow> real \<Rightarrow> real \<times> real" where
  "screenToWorld t sx sy = ((sx - tx t) / scale t, (sy - ty t) / scale t)"

text \<open>
  The camera update of \<^verbatim>\<open>onPointerMove\<close> while dragging:
  \<^verbatim>\<open>transform.current.tx += dx; transform.current.ty += dy\<close>.
\<close>

definition pan :: "transform \<Rightarrow> real \<Rightarrow> real \<Rightarrow> transform" where
  "pan t dx dy = t\<lparr>tx := tx t + dx, ty := ty t + dy\<rparr>"

text \<open>
  The camera update of \<^verbatim>\<open>onWheel\<close> for a zoom factor and the pointer position
  \<open>(mx, my)\<close> relative to the canvas: the three assignments to \<^verbatim>\<open>t.tx\<close>, \<^verbatim>\<open>t.ty\<close>
  and \<^verbatim>\<open>t.scale\<close>, in the order of the source.
\<close>

definition zoomAt :: "transform \<Rightarrow> real \<Rightarrow> real \<Rightarrow> real \<Rightarrow> transform" where
  "zoomAt t factor mx my =
     (let before = screenToWorld t mx my;
          ns = max 0.1 (min 3 (scale t * factor));
          t1 = t\<lparr>tx := tx t + (mx - fst before * ns - tx t)\<rparr>;
          t2 = t1\<lparr>ty := ty t1 + (my - snd before * ns - ty t1)\<rparr>
      in t2\<lparr>scale := ns\<rparr>)"

text \<open>
  \<^verbatim>\<open>onWheel(e)\<close>: the factor is \<^verbatim>\<open>Math.exp(-e.deltaY*0.001)\<close> and the pointer position is
  \<^verbatim>\<open>e.clientX - rect.left\<close>, \<^verbatim>\<open>e.clientY - rect.top\<close>.
\<close>

definition onWheel :: "transform \<Rightarrow> rect \<Rightarrow> real \<Rightarrow> real \<Rightarrow> real \<Rightarrow> transform" where
  "onWheel t r deltaY clientX clientY =
     (let delta = - deltaY;
          factor = exp (delta * 0.001);
          mx = clientX - rect_left r;
          my = clientY - rect_top r
      in zoomAt t factor mx my)"

section \<open>The state of the component\<close>

text \<open>
  What the functions of \<^verbatim>\<open>OrgChartCanvas\<close> read besides the camera: the generated \<^verbatim>\<open>nodes\<close>,
  the depth limit, the value filter \<^verbatim>\<open>minAmt\<close>, the collapse set, the search text, and the
  bounding rectangle of the canvas (\<open>None\<close> when \<^verbatim>\<open>canvasRef.current\<close> is \<^verbatim>\<open>null\<close>).
\<close>

record view_state =
  nodes :: "node list"
  maxDepth :: int
  minAmt :: int
  collapsed :: "nat set"
  query :: js_string
  canvas :: "rect option"

text \<open>\<^verbatim>\<open>nodesById = new Map(nodes.map(n=>[n.id, n]))\<close>: a later entry replaces an earlier one.\<close>

definition mk_nodesById :: "node list \<Rightarrow> (nat \<rightharpoonup> node)" where
  "mk_nodesById ns = fold (\<lambda>m idx. idx(node_id m \<mapsto> m)) ns Map.empty"

definition nodesById :: "view_state \<Rightarrow> (nat \<rightharpoonup> node)" where
  "nodesById e = mk_nodesById (nodes e)"

section \<open>isVisible\<close>

text \<open>
  The loop \<^verbatim>\<open>for(let i=0;i<maxDepth;i++)\<close> of \<^verbatim>\<open>isVisible\<close>. \<open>cur\<close> is \<open>None\<close> when the
  lookup \<^verbatim>\<open>nodesById.get(cur.parentId)!\<close> found nothing: the next round then throws on
  \<^verbatim>\<open>cur.parentId\<close>.
\<close>

function isVisible_loop :: "view_state \<Rightarrow> int \<Rightarrow> node option \<Rightarrow> error + bool" where
  "isVisible_loop e i cur =
     (if i < maxDepth e then
        (case cur of None \<Rightarrow> Inl TypeError
         | Some c \<Rightarrow>
            (case parentId c of None \<Rightarrow> Inr True
             | Some p \<Rightarrow>
                 if p \<in> collapsed e then Inr False
                 else isVisible_loop e (i + 1) (nodesById e p)))
      else Inr True)"
  by pat_completeness auto
termination
  by (relation "measure (\<lambda>(e, i, cur). nat (maxDepth e - i))") auto

declare isVisible_loop.simps [simp del]

definition isVisible :: "view_state \<Rightarrow> node \<Rightarrow> error + bool" where
  "isVisible e n =
     (if int (depth n) > maxDepth e then Inr False
      else if node_value n < minAmt e then Inr False
      else isVisible_loop e 0 (Some n))"

text \<open>
  The update of the collapse set in \<^verbatim>\<open>onClick\<close>:
  \<^verbatim>\<open>next.has(hit.id)? next.delete(hit.id): next.add(hit.id)\<close>.
\<close>

definition toggle :: "nat set \<Rightarrow> nat \<Rightarrow> nat set" where
  "toggle prev hit = (if hit \<in> prev then prev - {hit} else insert hit prev)"

section \<open>focusOnFirstMatch and fitToContent\<close>

text \<open>
  \<^verbatim>\<open>String.prototype.toLowerCase\<close> is the case mapping of the host's Unicode tables. It is
  not part of the source: \<open>focusOnFirstMatch\<close> takes it as its first argument, and what is
  proved of it holds for every such function.
\<close>

definition focusOnFirstMatch ::
  "(js_string \<Rightarrow> js_string) \<Rightarrow> view_state \<Rightarrow> transform \<Rightarrow> error + transform" where
  "focusOnFirstMatch toLowerCase e t =
     (let q = toLowerCase (trim (query e)) in
      if q = [] then Inr t
      else
        (case find (\<lambda>m. includes_str (toLowerCase (units (name m))) q
                        \<or> units (String_nat (node_id m)) = q) (nodes e) of
           None \<Rightarrow> Inr t
         | Some m \<Rightarrow>
            (case canvas e of None \<Rightarrow> Inl TypeError
             | Some r \<Rightarrow>
                 let targetScale = max 0.6 (scale t)
                 in Inr \<lparr>scale = targetScale,
                         tx = rect_width r / 2 - node_x m * targetScale,
                         ty = rect_height r / 4 - node_y m * targetScale\<rparr>)))"

text \<open>
  The bounding box \<open>(minX, maxX, minY, maxY)\<close> of the loop of \<^verbatim>\<open>fitToContent\<close>. The start
  values \<^verbatim>\<open>Infinity\<close>, \<^verbatim>\<open>-Infinity\<close> with \<^verbatim>\<open>any=false\<close> are the value \<open>None\<close>: the first
  visible node replaces them by its own coordinates, as \<^verbatim>\<open>Math.min(Infinity, n.x)\<close> and
  \<^verbatim>\<open>Math.max(-Infinity, n.x)\<close> do.
\<close>

type_synonym bounds = "real \<times> real \<times> real \<times> real"

definition bounds_add :: "node \<Rightarrow> bounds option \<Rightarrow> bounds option" where
  "bounds_add m b =
     (case b of None \<Rightarrow> Some (node_x m, node_x m, node_y m, node_y m)
      | Some (minX, maxX, minY, maxY) \<Rightarrow>
          Some (min minX (node_x m), max maxX (node_x m), min minY (node_y m), max maxY (node_y m)))"

fun visible_bounds :: "view_state \<Rightarrow> node list \<Rightarrow> bounds option \<Rightarrow> error + bounds option" where
  "visible_bounds e [] b = Inr b"
| "visible_bounds e (m # ms) b =
     (case isVisible e m of Inl err \<Rightarrow> Inl err
      | Inr v \<Rightarrow> if \<not> v then visible_bounds e ms b else visible_bounds e ms (bounds_add m b))"

definition fitToContent :: "view_state \<Rightarrow> transform \<Rightarrow> real \<Rightarrow> error + transform" where
  "fitToContent e t padPx =
     (case canvas e of None \<Rightarrow> Inr t
      | Some r \<Rightarrow>
         (case visible_bounds e (nodes e) None of Inl err \<Rightarrow> Inl err
          | Inr None \<Rightarrow> Inr t
          | Inr (Some (minX, maxX, minY, maxY)) \<Rightarrow>
              let w = max 1 (maxX - minX);
                  h = max 1 (maxY - minY);
                  sx = (rect_width r - padPx * 2) / w;
                  sy = (rect_height r - padPx * 2) / h;
                  s = max 0.1 (min 2.5 (min sx sy))
              in Inr \<lparr>scale = s,
                      tx = rect_width r / 2 - (minX + maxX) / 2 * s,
                      ty = rect_height r / 2 - (minY + maxY) / 2 * s\<rparr>))"

section \<open>Sequences of camera operations\<close>

text \<open>
  The four operations that write \<^verbatim>\<open>transform.current\<close>, each with what it reads at the time
  of the call. A call that throws leaves the camera as it was: both functions throw, if at
  all, before their first assignment.
\<close>

datatype camera_op =
  Pan real real
| Wheel rect real real real
| Fit view_state real
| Focus view_state

fun apply_op :: "(js_string \<Rightarrow> js_string) \<Rightarrow> transform \<Rightarrow> camera_op \<Rightarrow> transform" where
  "apply_op toLowerCase t (Pan dx dy) = pan t dx dy"
| "apply_op toLowerCase t (Wheel r deltaY clientX clientY) = onWheel t r deltaY clientX clientY"
| "apply_op toLowerCase t (Fit e padPx) =
     (case fitToContent e t padPx of Inl err \<Rightarrow> t | Inr t' \<Rightarrow> t')"
| "apply_op toLowerCase t (Focus e) =
     (case focusOnFirstMatch toLowerCase e t of Inl err \<Rightarrow> t | Inr t' \<Rightarrow> t')"

definition run_ops :: "(js_string \<Rightarrow> js_string) \<Rightarrow> camera_op list \<Rightarrow> transform" where
  "run_ops toLowerCase ops = foldl (apply_op toLowerCase) transform_init ops"

section \<open>Notions of the specification\<close>

text \<open>
  \<open>is_ancestor byId a m\<close>: the id \<open>a\<close> is met on the parent chain of \<open>m\<close>, walked to its end
  with no bound on the number of steps.
\<close>

inductive is_ancestor :: "(nat \<rightharpoonup> node) \<Rightarrow> nat \<Rightarrow> node \<Rightarrow> bool" for byId where
  parent: "parentId m = Some p \<Longrightarrow> is_ancestor byId p m"
| further: "parentId m = Some p \<Longrightarrow> byId p = Some pn \<Longrightarrow> is_ancestor byId a pn \<Longrightarrow> is_ancestor byId a m"

text \<open>
  The ancestor walk of \<open>isVisible\<close> without its bound of \<open>maxDepth\<close> rounds: the loop of the
  source with the test \<^verbatim>\<open>i<maxDepth\<close> taken out. A walk that does not end has the value \<open>None\<close>.
\<close>

partial_function (option) ancestor_walk :: "view_state \<Rightarrow> node option \<Rightarrow> (error + bool) option" where
  "ancestor_walk e cur =
     (case cur of None \<Rightarrow> Some (Inl TypeError)
      | Some c \<Rightarrow>
         (case parentId c of None \<Rightarrow> Some (Inr True)
          | Some p \<Rightarrow>
              if p \<in> collapsed e then Some (Inr False)
              else ancestor_walk e (nodesById e p)))"

text \<open>\<open>parent_chain byId m l\<close>: the parent chain of \<open>m\<close> ends at a node without parent after \<open>l\<close> steps.\<close>

inductive parent_chain :: "(nat \<rightharpoonup> node) \<Rightarrow> node \<Rightarrow> nat \<Rightarrow> bool" for byId where
  at_root: "parentId m = None \<Longrightarrow> parent_chain byId m 0"
| below: "parentId m = Some p \<Longrightarrow> byId p = Some pn \<Longrightarrow> parent_chain byId pn l \<Longrightarrow> parent_chain byId m (Suc l)"

text \<open>
  A well-formed tree, as a node list: the ids are \<open>1, 2, \<dots>\<close> in the order of the list, the
  first node has no parent and depth 0, and every other node has a parent with a smaller id
  and a depth one above its parent's.
\<close>

definition wf_tree :: "node list \<Rightarrow> bool" where
  "wf_tree ns \<longleftrightarrow>
     ns \<noteq> [] \<and> map node_id ns = [1..<Suc (length ns)]
   \<and> parentId (hd ns) = None \<and> depth (hd ns) = 0
   \<and> list_all (\<lambda>m. case parentId m of None \<Rightarrow> False
        | Some p \<Rightarrow> 1 \<le> p \<and> p < node_id m \<and> depth m = depth (ns ! (p - 1)) + 1) (tl ns)"

text \<open>
  The level rule in the words of the specification: one uniform draw, mapped through the
  cumulative thresholds 15%, 40%, 70%.
\<close>

definition level_of_draw :: "real \<Rightarrow> string" where
  "level_of_draw r = (if r < 0.15 then ''S'' else if r < 0.4 then ''A'' else if r < 0.7 then ''B'' else ''C'')"

section \<open>Example states\<close>

text \<open>
  Two small trees as \<^verbatim>\<open>generateTree\<close> lays them out (a chain of three nodes; a root with two
  children), and the component's initial state around a node list: depth limit 6, no value
  filter, nothing collapsed, an empty search text, a canvas of 800 by 600.
\<close>

definition example_chain :: "node list" where
  "example_chain =
     [\<lparr>node_id = 1, name = ''ROOT'', parentId = None, level = ''A'', node_value = 0,
       depth = 0, node_x = 0, node_y = 0, hasChildren = True\<rparr>,
      \<lparr>node_id = 2, name = ''M00002'', parentId = Some 1, level = ''C'', node_value = 150000,
       depth = 1, node_x = 0, node_y = 120, hasChildren = True\<rparr>,
      \<lparr>node_id = 3, name = ''M00003'', parentId = Some 2, level = ''B'', node_value = 90000,
       depth = 2, node_x = 0, node_y = 240, hasChildren = False\<rparr>]"

definition example_fan :: "node list" where
  "example_fan =
     [\<lparr>node_id = 1, name = ''ROOT'', parentId = None, level = ''A'', node_value = 0,
       depth = 0, node_x = 0, node_y = 0, hasChildren = True\<rparr>,
      \<lparr>node_id = 2, name = ''M00002'', parentId = Some 1, level = ''C'', node_value = 150000,
       depth = 1, node_x = - 300, node_y = 120, hasChildren = False\<rparr>,
      \<lparr>node_id = 3, name = ''M00003'', parentId = Some 1, level = ''B'', node_value = 90000,
       depth = 1, node_x = 300, node_y = 120, hasChildren = False\<rparr>]"

text \<open>
  On a string of ASCII characters \<^verbatim>\<open>toLowerCase\<close> maps the letters A to Z to a to z and keeps
  the rest. The examples, whose strings are ASCII, take this function for it.
\<close>

definition lower_ascii :: "js_string \<Rightarrow> js_string" where
  "lower_ascii s = map (\<lambda>c. if 65 \<le> c \<and> c \<le> 90 then c + 32 else c) s"

definition example_view :: "node list \<Rightarrow> view_state" where
  "example_view ns = \<lparr>nodes = ns, maxDepth = 6, minAmt = 0, collapsed = {}, query = [],
     canvas = Some \<lparr>rect_left = 0, rect_top = 0, rect_width = 800, rect_height = 600\<rparr>\<rparr>"

section \<open>Invariants of the generation\<close>

text \<open>The array \<^verbatim>\<open>nodes\<close> of \<^verbatim>\<open>generateTree\<close> when its generation loop has ended.\<close>

definition generated :: "int \<Rightarrow> int \<Rightarrow> int \<Rightarrow> node list" where
  "generated total_n maxChildren seed =
     g_nodes (generate_loop total_n maxChildren 2
       \<lparr>g_nodes = [root_node], g_childCount = [1 \<mapsto> 0], g_rng = randSeeded seed\<rparr>)"


text \<open>
  After every round of the generation loop: node \<open>a\<close> of the array has id \<open>a + 1\<close>, the first
  node has no parent, and every other node a parent among the nodes before it.
\<close>

definition gen_inv :: "node list \<Rightarrow> bool" where
  "gen_inv ns \<longleftrightarrow> ns \<noteq> [] \<and> (\<forall>a<length ns. node_id (ns ! a) = Suc a) \<and> parentId (ns ! 0) = None
     \<and> (\<forall>a<length ns. 0 < a \<longrightarrow> (\<exists>p. parentId (ns ! a) = Some p \<and> 1 \<le> p \<and> p \<le> a))"

text \<open>
  The invariant of the breadth-first loop, over the generated array \<open>ns0\<close>: \<open>dn\<close> are the ids
  already taken from the queue \<open>q\<close>. Nothing but depths has changed; the queue holds
  distinct ids that are not done; the root is queued or done; a queued or done node has a done
  parent, and a node with a done parent is queued or done; depths are right for all queued
  and done nodes.
\<close>

definition bfs_inv :: "node list \<Rightarrow> nat set \<Rightarrow> nat list \<Rightarrow> node list \<Rightarrow> bool" where
  "bfs_inv ns0 dn q ns \<longleftrightarrow>
     length ns = length ns0
   \<and> (\<forall>a<length ns0. (ns ! a)\<lparr>depth := 0\<rparr> = (ns0 ! a)\<lparr>depth := 0\<rparr>)
   \<and> distinct q \<and> set q \<inter> dn = {} \<and> set q \<union> dn \<subseteq> {1..length ns0}
   \<and> 1 \<in> set q \<union> dn
   \<and> (\<forall>k\<in>set q \<union> dn. \<forall>p. parentId (ns0 ! (k - 1)) = Some p \<longrightarrow> p \<in> dn)
   \<and> (\<forall>k\<in>{1..length ns0}. \<forall>p. parentId (ns0 ! (k - 1)) = Some p \<longrightarrow> p \<in> dn \<longrightarrow> k \<in> set q \<union> dn)
   \<and> depth (ns ! 0) = 0
   \<and> (\<forall>k\<in>set q \<union> dn. \<forall>p. parentId (ns0 ! (k - 1)) = Some p \<longrightarrow>
         depth (ns ! (k - 1)) = depth (ns ! (p - 1)) + 1)"

section \<open>Zoom anchoring\<close>

lemma zoomAt_scale: "scale (zoomAt t factor mx my) = max 0.1 (min 3 (scale t * factor))"
  by (simp add: zoomAt_def Let_def)

lemma zoomAt_scale_pos: "0 < scale (zoomAt t factor mx my)"
  by (simp add: zoomAt_scale)

lemma zoomAt_anchor:
  assumes "0 < scale t"
  shows "screenToWorld (zoomAt t factor mx my) mx my = screenToWorld t mx my"
proof -
  define ns :: real where "ns = max 0.1 (min 3 (scale t * factor))"
  have ns: "ns \<noteq> 0" by (simp add: ns_def)
  show ?thesis
    using ns by (simp add: zoomAt_def screenToWorld_def Let_def ns_def [symmetric])
qed

text \<open>
  C2. For a camera with positive scale, any pointer position and any wheel factor (any
  \<^verbatim>\<open>deltaY\<close>), also when the new scale is clamped to \<open>[0.1, 3]\<close>, \<open>screenToWorld\<close> of the
  pointer position is the same world point after the wheel zoom as before it, exactly,
  over the real numbers.
\<close>

theorem wheel_zoom_anchored:
  assumes "0 < scale t"
  shows "screenToWorld (zoomAt t factor mx my) mx my = screenToWorld t mx my
       \<and> screenToWorld (onWheel t r deltaY clientX clientY)
            (clientX - rect_left r) (clientY - rect_top r)
          = screenToWorld t (clientX - rect_left r) (clientY - rect_top r)"
  using assms by (simp add: onWheel_def Let_def zoomAt_anchor)

theorem wheel_zoom_anchored_witness:
  "0 < scale transform_init
   \<and> screenToWorld (zoomAt transform_init 100 10 20) 10 20 = screenToWorld transform_init 10 20
   \<and> screenToWorld (onWheel transform_init \<lparr>rect_left = 5, rect_top = 7, rect_width = 800, rect_height = 600\<rparr> (-120) 15 27)
        (15 - rect_left \<lparr>rect_left = 5, rect_top = 7, rect_width = 800, rect_height = 600\<rparr>)
        (27 - rect_top \<lparr>rect_left = 5, rect_top = 7, rect_width = 800, rect_height = 600\<rparr>)
      = screenToWorld transform_init
        (15 - rect_left \<lparr>rect_left = 5, rect_top = 7, rect_width = 800, rect_height = 600\<rparr>)
        (27 - rect_top \<lparr>rect_left = 5, rect_top = 7, rect_width = 800, rect_height = 600\<rparr>)"
proof -
  have pos: "0 < scale transform_init" by (simp add: transform_init_def)
  show ?thesis
    using pos wheel_zoom_anchored [OF pos, of 100 10 20
        "\<lparr>rect_left = 5, rect_top = 7, rect_width = 800, rect_height = 600\<rparr>" "-120" 15 27]
    by simp
qed

section \<open>The generation loop and the breadth-first search\<close>

lemma pickParentId_tries_range:
  "1 \<le> len \<Longrightarrow> 1 \<le> pid \<Longrightarrow> pid \<le> len \<Longrightarrow>
     1 \<le> fst (pickParentId_tries mc len cc k pid s) \<and> fst (pickParentId_tries mc len cc k pid s) \<le> len"
proof (induction k arbitrary: pid s)
  case 0
  then show ?case by simp
next
  case (Suc k)
  obtain r s' where r: "rnd s = (r, s')" by (cases "rnd s")
  define pid' where "pid' = nat (max 1 (min (int len) (1 + \<lfloor>(r powr 1.2) * real len\<rfloor>)))"
  have range: "1 \<le> pid'" "pid' \<le> len"
    using Suc.prems(1) unfolding pid'_def by linarith+
  have step: "pickParentId_tries mc len cc (Suc k) pid s =
      (if int (childCount_get cc pid') < mc then (pid', s')
       else pickParentId_tries mc len cc k pid' s')"
    unfolding pid'_def by (simp add: r Let_def)
  show ?case
    using Suc.IH [OF Suc.prems(1) range, of s'] range
    by (simp only: step split: if_split) simp
qed

lemma pickParentId_range:
  assumes "g_nodes g \<noteq> []"
  shows "1 \<le> fst (pickParentId mc g) \<and> fst (pickParentId mc g) \<le> length (g_nodes g)"
    and "g_nodes (snd (pickParentId mc g)) = g_nodes g"
proof -
  have len: "1 \<le> length (g_nodes g)" using assms by (cases "g_nodes g") simp_all
  show "1 \<le> fst (pickParentId mc g) \<and> fst (pickParentId mc g) \<le> length (g_nodes g)"
    using pickParentId_tries_range [OF len, of 1 mc "g_childCount g" 8 "g_rng g"] len
    by (auto simp add: pickParentId_def Let_def split: prod.splits)
  show "g_nodes (snd (pickParentId mc g)) = g_nodes g"
    by (simp add: pickParentId_def Let_def split: prod.splits)
qed

lemma generate_node_nodes:
  assumes "g_nodes g \<noteq> []"
  shows "\<exists>m p. g_nodes (generate_node mc i g) = g_nodes g @ [m] \<and> node_id m = i
           \<and> parentId m = Some p \<and> 1 \<le> p \<and> p \<le> length (g_nodes g) \<and> depth m = 0"
proof -
  obtain pid g1 where p: "pickParentId mc g = (pid, g1)" by (cases "pickParentId mc g")
  have "1 \<le> pid \<and> pid \<le> length (g_nodes g)" "g_nodes g1 = g_nodes g"
    using pickParentId_range [OF assms, of mc] by (simp_all add: p)
  then show ?thesis
    by (simp add: generate_node_def p Let_def split: prod.splits)
qed

lemma gen_inv_snoc:
  assumes "gen_inv ns" "node_id m = Suc (length ns)" "parentId m = Some p" "1 \<le> p" "p \<le> length ns"
  shows "gen_inv (ns @ [m])"
  using assms unfolding gen_inv_def
  by (auto simp: nth_append less_Suc_eq)

lemma generate_loop_inv:
  "gen_inv (g_nodes g) \<Longrightarrow> i = Suc (length (g_nodes g)) \<Longrightarrow>
     gen_inv (g_nodes (generate_loop total_n mc i g))
     \<and> int (length (g_nodes (generate_loop total_n mc i g))) = max (int (length (g_nodes g))) total_n"
proof (induction total_n mc i g rule: generate_loop.induct)
  case (1 total_n mc i g)
  show ?case
  proof (cases "int i \<le> total_n")
    case True
    have ne: "g_nodes g \<noteq> []" using "1.prems"(1) by (simp add: gen_inv_def)
    obtain m p where m: "g_nodes (generate_node mc i g) = g_nodes g @ [m]" "node_id m = i"
        "parentId m = Some p" "1 \<le> p" "p \<le> length (g_nodes g)"
      using generate_node_nodes [OF ne, of mc i] by blast
    have inv': "gen_inv (g_nodes (generate_node mc i g))"
      using gen_inv_snoc [OF "1.prems"(1) _ m(3,4,5)] m(1,2) "1.prems"(2) by simp
    have i': "Suc i = Suc (length (g_nodes (generate_node mc i g)))"
      using m(1) "1.prems"(2) by simp
    show ?thesis
      using "1.IH" [OF True inv' i'] True m(1) "1.prems"(2)
      by (subst (1 2) generate_loop.simps) (simp add: max_def)
  next
    case False
    then show ?thesis
      using "1.prems" by (subst (1 2) generate_loop.simps) (simp add: max_def)
  qed
qed


lemma gen_inv_ids: "gen_inv ns \<Longrightarrow> map node_id ns = [1..<Suc (length ns)]"
  by (rule nth_equalityI) (auto simp: gen_inv_def nth_upt simp del: upt_Suc)

lemma gen_inv_parent:
  assumes "gen_inv ns" "1 \<le> k" "k \<le> length ns" "parentId (ns ! (k - 1)) = Some p"
  shows "1 \<le> p \<and> p < k"
proof -
  have "k - 1 \<noteq> 0" using assms by (auto simp: gen_inv_def)
  then have "0 < k - 1" "k - 1 < length ns" using assms(2,3) by simp_all
  then obtain p' where "parentId (ns ! (k - 1)) = Some p'" "1 \<le> p'" "p' \<le> k - 1"
    using assms(1) unfolding gen_inv_def by blast
  then show ?thesis using assms(4) by simp
qed

lemma byId_fold:
  "(\<forall>a<n. f a = Suc a) \<Longrightarrow>
     fold (\<lambda>a m. m(f a \<mapsto> a)) [0..<n] Map.empty k = (if 1 \<le> k \<and> k \<le> n then Some (k - 1) else None)"
  by (induction n) auto

lemma mk_byId_gen:
  "gen_inv ns \<Longrightarrow> mk_byId ns k = (if 1 \<le> k \<and> k \<le> length ns then Some (k - 1) else None)"
  unfolding mk_byId_def by (rule byId_fold) (simp add: gen_inv_def)

lemma kids_of_fold:
  "kids_of (fold childrenMap_add ns m) p = kids_of m p @ map node_id (filter (\<lambda>n. parentId n = Some p) ns)"
  by (induction ns arbitrary: m) (auto simp: childrenMap_add_def kids_of_def split: option.splits)

lemma kids_of_mk: "kids_of (mk_childrenMap ns) p = map node_id (filter (\<lambda>n. parentId n = Some p) ns)"
  by (simp add: mk_childrenMap_def kids_of_fold) (simp add: kids_of_def)

lemma kids_set:
  assumes "gen_inv ns"
  shows "set (kids_of (mk_childrenMap ns) p) = {k. 1 \<le> k \<and> k \<le> length ns \<and> parentId (ns ! (k - 1)) = Some p}"
proof -
  have ids: "\<forall>a<length ns. node_id (ns ! a) = Suc a" using assms by (simp add: gen_inv_def)
  show ?thesis
  proof (intro set_eqI iffI)
    fix k assume "k \<in> set (kids_of (mk_childrenMap ns) p)"
    then obtain m where m: "m \<in> set ns" "parentId m = Some p" "k = node_id m"
      by (auto simp: kids_of_mk)
    then obtain a where a: "a < length ns" "m = ns ! a" by (auto simp: in_set_conv_nth)
    then have "k = Suc a" using ids m(3) by simp
    then show "k \<in> {k. 1 \<le> k \<and> k \<le> length ns \<and> parentId (ns ! (k - 1)) = Some p}"
      using a m(2) by simp
  next
    fix k assume "k \<in> {k. 1 \<le> k \<and> k \<le> length ns \<and> parentId (ns ! (k - 1)) = Some p}"
    then have k: "1 \<le> k" "k \<le> length ns" "parentId (ns ! (k - 1)) = Some p" by simp_all
    then have lt: "k - 1 < length ns" by simp
    have "node_id (ns ! (k - 1)) = k" using ids lt k(1) by simp
    moreover have "ns ! (k - 1) \<in> set ns" using lt by simp
    ultimately show "k \<in> set (kids_of (mk_childrenMap ns) p)"
      using k(3) by (force simp: kids_of_mk)
  qed
qed

lemma kids_distinct:
  assumes "gen_inv ns"
  shows "distinct (kids_of (mk_childrenMap ns) p)"
proof -
  have "distinct (map node_id ns)" by (simp add: gen_inv_ids [OF assms] del: upt_Suc)
  then show ?thesis unfolding kids_of_mk by (rule distinct_map_filter)
qed

lemma visit_kids_result:
  assumes byId: "\<And>k. byId k = (if 1 \<le> k \<and> k \<le> n then Some (k - 1) else None)"
    and pid: "1 \<le> pid" "pid \<le> n"
  shows "(\<forall>k\<in>set kids. 1 \<le> k \<and> k \<le> n) \<Longrightarrow> pid \<notin> set kids \<Longrightarrow> length ns = n \<Longrightarrow>
     \<exists>ns'. visit_kids byId pid kids (q, ns) = Inr (q @ kids, ns') \<and> length ns' = n
        \<and> (\<forall>a<n. ns' ! a = (if Suc a \<in> set kids
               then (ns ! a)\<lparr>depth := depth (ns ! (pid - 1)) + 1\<rparr> else ns ! a))"
proof (induction kids arbitrary: q ns)
  case Nil
  then show ?case by simp
next
  case (Cons cid kids)
  have cid: "1 \<le> cid" "cid \<le> n" "cid \<noteq> pid" using Cons.prems by auto
  define ns1 where "ns1 = ns[cid - 1 := (ns ! (cid - 1))\<lparr>depth := depth (ns ! (pid - 1)) + 1\<rparr>]"
  have vk: "visit_kid byId pid cid (q, ns) = Inr (q @ [cid], ns1)"
    using cid pid by (simp add: visit_kid_def byId ns1_def)
  have len1: "length ns1 = n" using Cons.prems(3) by (simp add: ns1_def)
  have kids: "\<forall>k\<in>set kids. 1 \<le> k \<and> k \<le> n" "pid \<notin> set kids" using Cons.prems by auto
  obtain ns' where ns': "visit_kids byId pid kids (q @ [cid], ns1) = Inr ((q @ [cid]) @ kids, ns')"
      "length ns' = n"
      "\<forall>a<n. ns' ! a = (if Suc a \<in> set kids
               then (ns1 ! a)\<lparr>depth := depth (ns1 ! (pid - 1)) + 1\<rparr> else ns1 ! a)"
    using Cons.IH [OF kids len1, of "q @ [cid]"] by blast
  have dp: "depth (ns1 ! (pid - 1)) = depth (ns ! (pid - 1))"
    using cid pid Cons.prems(3) by (simp add: ns1_def nth_list_update)
  have "\<forall>a<n. ns' ! a = (if Suc a \<in> set (cid # kids)
               then (ns ! a)\<lparr>depth := depth (ns ! (pid - 1)) + 1\<rparr> else ns ! a)"
  proof (intro allI impI)
    fix a assume a: "a < n"
    show "ns' ! a = (if Suc a \<in> set (cid # kids)
               then (ns ! a)\<lparr>depth := depth (ns ! (pid - 1)) + 1\<rparr> else ns ! a)"
    proof (cases "a = cid - 1")
      case True
      then have "Suc a = cid" using cid by simp
      then show ?thesis
        using ns'(3) a dp True Cons.prems(3) by (simp add: ns1_def)
    next
      case False
      then have "Suc a \<noteq> cid" by auto
      then show ?thesis
        using ns'(3) a dp False Cons.prems(3) by (simp add: ns1_def)
    qed
  qed
  then show ?case using vk ns'(1,2) by simp
qed





lemma bfs_inv_step:
  assumes g: "gen_inv ns0" and inv: "bfs_inv ns0 dn (pid # rest) ns"
    and kids: "kids = kids_of (mk_childrenMap ns0) pid"
    and len': "length ns' = length ns0"
    and upd: "\<forall>a<length ns0. ns' ! a = (if Suc a \<in> set kids
                 then (ns ! a)\<lparr>depth := depth (ns ! (pid - 1)) + 1\<rparr> else ns ! a)"
  shows "bfs_inv ns0 (insert pid dn) (rest @ kids) ns'"
proof -
  let ?n = "length ns0"
  note d = inv [unfolded bfs_inv_def]
  have i2: "\<forall>a<?n. (ns ! a)\<lparr>depth := 0\<rparr> = (ns0 ! a)\<lparr>depth := 0\<rparr>"
    using d by (elim conjE)
  have i3: "distinct (pid # rest)" using d by (elim conjE)
  have i4: "set (pid # rest) \<inter> dn = {}" using d by (elim conjE)
  have i5: "set (pid # rest) \<union> dn \<subseteq> {1..?n}" using d by (elim conjE)
  have i6: "1 \<in> set (pid # rest) \<union> dn" using d by (elim conjE)
  have i7: "\<forall>k\<in>set (pid # rest) \<union> dn. \<forall>p. parentId (ns0 ! (k - 1)) = Some p \<longrightarrow> p \<in> dn"
    using d by (elim conjE)
  have i8: "\<forall>k\<in>{1..?n}. \<forall>p. parentId (ns0 ! (k - 1)) = Some p \<longrightarrow> p \<in> dn \<longrightarrow> k \<in> set (pid # rest) \<union> dn"
    using d by (elim conjE)
  have i9: "depth (ns ! 0) = 0" using d by (elim conjE)
  have i10: "\<forall>k\<in>set (pid # rest) \<union> dn. \<forall>p. parentId (ns0 ! (k - 1)) = Some p \<longrightarrow>
         depth (ns ! (k - 1)) = depth (ns ! (p - 1)) + 1"
    using d by (elim conjE)
  have pid: "1 \<le> pid" "pid \<le> ?n" "pid \<notin> dn" "pid \<notin> set rest"
  proof -
    have "pid \<in> {1..?n}" using i5 by simp
    then show "1 \<le> pid" "pid \<le> ?n" by simp_all
    show "pid \<notin> dn" using i4 by simp
    show "pid \<notin> set rest" using i3 by simp
  qed
  have K: "\<And>k. k \<in> set kids \<longleftrightarrow> 1 \<le> k \<and> k \<le> ?n \<and> parentId (ns0 ! (k - 1)) = Some pid"
    unfolding kids kids_set [OF g] by simp
  have dk: "distinct kids" unfolding kids by (rule kids_distinct [OF g])
  have fresh: "\<And>k. k \<in> set kids \<Longrightarrow> k \<notin> set (pid # rest) \<union> dn"
  proof
    fix k assume k: "k \<in> set kids" and "k \<in> set (pid # rest) \<union> dn"
    then have "pid \<in> dn" using i7 K by blast
    then show False using pid(3) by simp
  qed
  have ne: "0 < ?n" using g by (simp add: gen_inv_def)
  have root: "Suc 0 \<notin> set kids" using K [of "Suc 0"] g by (simp add: gen_inv_def)
  have c2: "\<forall>a<?n. (ns' ! a)\<lparr>depth := 0\<rparr> = (ns0 ! a)\<lparr>depth := 0\<rparr>"
    using upd i2 by auto
  have c3: "distinct (rest @ kids)" using i3 dk fresh by auto
  have c4: "set (rest @ kids) \<inter> insert pid dn = {}" using i3 i4 fresh by auto
  have c5: "set (rest @ kids) \<union> insert pid dn \<subseteq> {1..?n}" using i5 K by auto
  have c6: "1 \<in> set (rest @ kids) \<union> insert pid dn" using i6 by auto
  have c7: "\<forall>k\<in>set (rest @ kids) \<union> insert pid dn. \<forall>p. parentId (ns0 ! (k - 1)) = Some p \<longrightarrow> p \<in> insert pid dn"
  proof (intro ballI allI impI)
    fix k p assume k: "k \<in> set (rest @ kids) \<union> insert pid dn" and p: "parentId (ns0 ! (k - 1)) = Some p"
    show "p \<in> insert pid dn"
    proof (cases "k \<in> set kids")
      case True
      then show ?thesis using K p by simp
    next
      case False
      then have "k \<in> set (pid # rest) \<union> dn" using k by auto
      then show ?thesis using i7 p by blast
    qed
  qed
  have c8: "\<forall>k\<in>{1..?n}. \<forall>p. parentId (ns0 ! (k - 1)) = Some p \<longrightarrow> p \<in> insert pid dn \<longrightarrow>
       k \<in> set (rest @ kids) \<union> insert pid dn"
  proof (intro ballI allI impI)
    fix k p assume k: "k \<in> {1..?n}" and p: "parentId (ns0 ! (k - 1)) = Some p" and pd: "p \<in> insert pid dn"
    show "k \<in> set (rest @ kids) \<union> insert pid dn"
    proof (cases "p = pid")
      case True
      then have "k \<in> set kids" using K k p by simp
      then show ?thesis by simp
    next
      case False
      then have "p \<in> dn" using pd by simp
      then have "k \<in> set (pid # rest) \<union> dn" using i8 k p by blast
      then show ?thesis by auto
    qed
  qed
  have c9: "depth (ns' ! 0) = 0" using upd ne root i9 by simp
  have c10: "\<forall>k\<in>set (rest @ kids) \<union> insert pid dn. \<forall>p. parentId (ns0 ! (k - 1)) = Some p \<longrightarrow>
         depth (ns' ! (k - 1)) = depth (ns' ! (p - 1)) + 1"
  proof (intro ballI allI impI)
    fix k p assume k: "k \<in> set (rest @ kids) \<union> insert pid dn" and p: "parentId (ns0 ! (k - 1)) = Some p"
    have kr: "1 \<le> k" "k \<le> ?n" using k c5 by auto
    have pr: "1 \<le> p" "p < k" using gen_inv_parent [OF g kr p] by simp_all
    have ka: "k - 1 < ?n" "Suc (k - 1) = k" using kr by simp_all
    have pa: "p - 1 < ?n" "Suc (p - 1) = p" using pr kr by simp_all
    show "depth (ns' ! (k - 1)) = depth (ns' ! (p - 1)) + 1"
    proof (cases "k \<in> set kids")
      case True
      then have pp: "p = pid" using K p by simp
      have "pid \<notin> set kids" using fresh by auto
      then have "ns' ! (pid - 1) = ns ! (pid - 1)" using upd pa pp by simp
      moreover have "ns' ! (k - 1) = (ns ! (k - 1))\<lparr>depth := depth (ns ! (pid - 1)) + 1\<rparr>"
        using upd ka True by simp
      ultimately show ?thesis using pp by simp
    next
      case False
      then have kq: "k \<in> set (pid # rest) \<union> dn" using k by auto
      then have "p \<in> dn" using i7 p by blast
      then have "p \<notin> set kids" using fresh by auto
      then have "ns' ! (p - 1) = ns ! (p - 1)" using upd pa by simp
      moreover have "ns' ! (k - 1) = ns ! (k - 1)" using upd ka False by simp
      moreover have "depth (ns ! (k - 1)) = depth (ns ! (p - 1)) + 1"
        using i10 kq p by blast
      ultimately show ?thesis by simp
    qed
  qed
  show ?thesis
    unfolding bfs_inv_def
    by (intro conjI) (fact len' c2 c3 c4 c5 c6 c7 c8 c9 c10)+
qed




lemma bfs_inv_all_done:
  assumes g: "gen_inv ns0" and inv: "bfs_inv ns0 dn [] ns"
  shows "1 \<le> k \<Longrightarrow> k \<le> length ns0 \<Longrightarrow> k \<in> dn"
proof (induction k rule: less_induct)
  case (less k)
  note d = inv [unfolded bfs_inv_def]
  have "1 \<in> set [] \<union> dn" using d by (elim conjE)
  then have i6: "1 \<in> dn" by simp
  have "\<forall>k\<in>{1..length ns0}. \<forall>p. parentId (ns0 ! (k - 1)) = Some p \<longrightarrow> p \<in> dn \<longrightarrow> k \<in> set [] \<union> dn"
    using d by (elim conjE)
  then have i8: "\<forall>k\<in>{1..length ns0}. \<forall>p. parentId (ns0 ! (k - 1)) = Some p \<longrightarrow> p \<in> dn \<longrightarrow> k \<in> dn"
    by simp
  show ?case
  proof (cases "k = 1")
    case True
    then show ?thesis using i6 by simp
  next
    case False
    then have "0 < k - 1" "k - 1 < length ns0" using less.prems by simp_all
    then obtain p where p: "parentId (ns0 ! (k - 1)) = Some p" "1 \<le> p" "p \<le> k - 1"
      using g unfolding gen_inv_def by blast
    have "p \<in> dn" using less.IH [of p] p less.prems by simp
    then show ?thesis using i8 p(1) less.prems by simp
  qed
qed

lemma bfs_depth_total:
  assumes g: "gen_inv ns0"
  shows "bfs_inv ns0 dn q ns \<Longrightarrow>
    \<exists>ns'. bfs_depth (mk_byId ns0) (mk_childrenMap ns0) q ns = Some (Inr ns') \<and> bfs_inv ns0 {1..length ns0} [] ns'"
proof (induction "length ns0 - card dn" arbitrary: dn q ns rule: less_induct)
  case less
  show ?case
  proof (cases q)
    case Nil
    have "dn = {1..length ns0}"
    proof
      have "set q \<union> dn \<subseteq> {1..length ns0}"
        using less.prems [unfolded bfs_inv_def] by (elim conjE)
      then show "dn \<subseteq> {1..length ns0}" by simp
      show "{1..length ns0} \<subseteq> dn"
        using bfs_inv_all_done [OF g less.prems [unfolded Nil]] by auto
    qed
    then show ?thesis
      using less.prems Nil by (subst bfs_depth.simps) simp
  next
    case (Cons pid rest)
    let ?kids = "kids_of (mk_childrenMap ns0) pid"
    have inv: "bfs_inv ns0 dn (pid # rest) ns" using less.prems Cons by simp
    note d = inv [unfolded bfs_inv_def]
    have len: "length ns = length ns0" using d by (elim conjE)
    have i3: "distinct (pid # rest)" using d by (elim conjE)
    have i4: "set (pid # rest) \<inter> dn = {}" using d by (elim conjE)
    have i5: "set (pid # rest) \<union> dn \<subseteq> {1..length ns0}" using d by (elim conjE)
    have sub: "dn \<subseteq> {1..length ns0}" using i5 by simp
    have "pid \<in> {1..length ns0}" using i5 by simp
    then have pid: "1 \<le> pid" "pid \<le> length ns0" by simp_all
    have pidn: "pid \<notin> dn" using i4 by simp
    have kr: "\<forall>k\<in>set ?kids. 1 \<le> k \<and> k \<le> length ns0" and pk: "pid \<notin> set ?kids"
      using gen_inv_parent [OF g, of pid pid] by (auto simp: kids_set [OF g])
    obtain ns' where ns': "visit_kids (mk_byId ns0) pid ?kids (rest, ns) = Inr (rest @ ?kids, ns')"
        "length ns' = length ns0"
        "\<forall>a<length ns0. ns' ! a = (if Suc a \<in> set ?kids
               then (ns ! a)\<lparr>depth := depth (ns ! (pid - 1)) + 1\<rparr> else ns ! a)"
      using visit_kids_result [of "mk_byId ns0" "length ns0" pid ?kids ns rest, OF mk_byId_gen [OF g] pid kr pk len]
      by blast
    have inv': "bfs_inv ns0 (insert pid dn) (rest @ ?kids) ns'"
      by (rule bfs_inv_step [OF g inv refl ns'(2,3)])
    have fin: "finite dn" using sub by (rule finite_subset) simp
    have "insert pid dn \<subseteq> {1..length ns0}" using sub pid by simp
    then have "card (insert pid dn) \<le> length ns0"
      using card_mono [of "{1..length ns0}" "insert pid dn"] by simp
    then have dec: "length ns0 - card (insert pid dn) < length ns0 - card dn"
      using fin pidn by simp
    show ?thesis
      using less.hyps [OF dec inv'] ns'(1) Cons
      by (subst bfs_depth.simps) simp
  qed
qed

lemma bfs_inv_init:
  assumes g: "gen_inv ns0"
  shows "bfs_inv ns0 {} [1] (ns0[0 := (ns0 ! 0)\<lparr>depth := 0\<rparr>])"
proof -
  have ne: "0 < length ns0" and root: "parentId (ns0 ! 0) = None"
    using g by (simp_all add: gen_inv_def)
  have c2: "\<forall>a<length ns0. ((ns0[0 := (ns0 ! 0)\<lparr>depth := 0\<rparr>]) ! a)\<lparr>depth := 0\<rparr> = (ns0 ! a)\<lparr>depth := 0\<rparr>"
    using ne by (auto simp: nth_list_update)
  have one: "Suc 0 \<le> length ns0" using ne by (cases ns0) simp_all
  show ?thesis
    unfolding bfs_inv_def using ne one root c2 by simp
qed

section \<open>Layout and marking keep ids, parents and depths\<close>

lemma map_update_invariant: "f v = f (ns ! a) \<Longrightarrow> map f (ns[a := v]) = map f ns"
  by (cases "a < length ns") (simp_all add: map_update list_update_same_conv list_update_beyond)

lemma place_map:
  assumes "\<And>m x y. f (m\<lparr>node_x := x, node_y := y\<rparr>) = f m"
  shows "map f (place d n w arr i ns) = map f ns"
  by (simp add: place_def Let_def map_update_invariant assms)

lemma fold_place_map:
  assumes "\<And>m x y. f (m\<lparr>node_x := x, node_y := y\<rparr>) = f m"
  shows "map f (fold (place d n w arr) js ns) = map f ns"
  by (induction js arbitrary: ns) (simp_all add: place_map [of f, OF assms])

lemma layout_layer_map:
  assumes "\<And>m x y. f (m\<lparr>node_x := x, node_y := y\<rparr>) = f m"
  shows "map f (layout_layer l ns) = map f ns"
  by (cases l) (simp add: layout_layer_def Let_def fold_place_map [of f, OF assms])

lemma fold_layout_layer_map:
  assumes "\<And>m x y. f (m\<lparr>node_x := x, node_y := y\<rparr>) = f m"
  shows "map f (fold layout_layer ls ns) = map f ns"
  by (induction ls arbitrary: ns) (simp_all add: layout_layer_map [of f, OF assms])

lemma layout_map:
  assumes "\<And>m x y. f (m\<lparr>node_x := x, node_y := y\<rparr>) = f m"
  shows "map f (layout ns) = map f ns"
  unfolding layout_def by (rule fold_layout_layer_map [of f, OF assms])

lemma mark_hasChildren_map:
  assumes "\<And>m b. f (m\<lparr>hasChildren := b\<rparr>) = f m"
  shows "map f (mark_hasChildren ns) = map f ns"
  by (simp add: mark_hasChildren_def Let_def assms)

lemma finish_map:
  assumes "\<And>m x y. f (m\<lparr>node_x := x, node_y := y\<rparr>) = f m" "\<And>m b. f (m\<lparr>hasChildren := b\<rparr>) = f m"
  shows "map f (mark_hasChildren (layout ns)) = map f ns"
  by (simp add: mark_hasChildren_map [of f, OF assms(2)] layout_map [of f, OF assms(1)])

lemma finish_nth:
  assumes "\<And>m x y. f (m\<lparr>node_x := x, node_y := y\<rparr>) = f m" "\<And>m b. f (m\<lparr>hasChildren := b\<rparr>) = f m"
    and "a < length ns"
  shows "f (mark_hasChildren (layout ns) ! a) = f (ns ! a)"
proof -
  have m: "map f (mark_hasChildren (layout ns)) = map f ns" by (rule finish_map [of f, OF assms(1,2)])
  then have l: "length (mark_hasChildren (layout ns)) = length ns" by (rule map_eq_imp_length_eq)
  have "f (mark_hasChildren (layout ns) ! a) = map f (mark_hasChildren (layout ns)) ! a"
    using assms(3) l by simp
  also have "\<dots> = map f ns ! a" by (simp only: m)
  also have "\<dots> = f (ns ! a)" using assms(3) by simp
  finally show ?thesis .
qed

lemma finish_length: "length (mark_hasChildren (layout ns)) = length ns"
proof -
  have "map (\<lambda>m. ()) (mark_hasChildren (layout ns)) = map (\<lambda>m. ()) ns"
    by (rule finish_map) simp_all
  then show ?thesis by (rule map_eq_imp_length_eq)
qed

lemma wf_treeI:
  assumes "ns \<noteq> []" "\<forall>a<length ns. node_id (ns ! a) = Suc a" "parentId (ns ! 0) = None"
    "depth (ns ! 0) = 0"
    "\<forall>a<length ns. 0 < a \<longrightarrow> (\<exists>p. parentId (ns ! a) = Some p \<and> 1 \<le> p \<and> p \<le> a
        \<and> depth (ns ! a) = depth (ns ! (p - 1)) + 1)"
  shows "wf_tree ns"
proof -
  have ids: "map node_id ns = [1..<Suc (length ns)]"
    by (rule nth_equalityI) (use assms(2) in \<open>auto simp: nth_upt simp del: upt_Suc\<close>)
  have hd: "hd ns = ns ! 0" using assms(1) by (simp add: hd_conv_nth)
  have "\<forall>j<length (tl ns). (case parentId (tl ns ! j) of None \<Rightarrow> False
        | Some p \<Rightarrow> 1 \<le> p \<and> p < node_id (tl ns ! j) \<and> depth (tl ns ! j) = depth (ns ! (p - 1)) + 1)"
  proof (intro allI impI)
    fix j assume j: "j < length (tl ns)"
    then have sj: "Suc j < length ns" by simp
    have nth: "tl ns ! j = ns ! Suc j" using j by (simp add: nth_tl)
    obtain p where p: "parentId (ns ! Suc j) = Some p" "1 \<le> p" "p \<le> Suc j"
        "depth (ns ! Suc j) = depth (ns ! (p - 1)) + 1"
      using assms(5) sj by blast
    have "node_id (ns ! Suc j) = Suc (Suc j)" using assms(2) sj by simp
    then show "case parentId (tl ns ! j) of None \<Rightarrow> False
        | Some p \<Rightarrow> 1 \<le> p \<and> p < node_id (tl ns ! j) \<and> depth (tl ns ! j) = depth (ns ! (p - 1)) + 1"
      using p by (simp add: nth)
  qed
  then show ?thesis
    unfolding wf_tree_def list_all_length using assms(1,3,4) ids hd by simp
qed

lemma wf_treeD:
  assumes "wf_tree ns"
  shows "ns \<noteq> []" "\<forall>a<length ns. node_id (ns ! a) = Suc a" "parentId (ns ! 0) = None"
    "depth (ns ! 0) = 0"
    "\<forall>a<length ns. 0 < a \<longrightarrow> (\<exists>p. parentId (ns ! a) = Some p \<and> 1 \<le> p \<and> p \<le> a
        \<and> depth (ns ! a) = depth (ns ! (p - 1)) + 1)"
proof -
  show ne: "ns \<noteq> []" using assms by (simp add: wf_tree_def)
  have ids: "map node_id ns = [1..<Suc (length ns)]" using assms by (simp add: wf_tree_def)
  show idx: "\<forall>a<length ns. node_id (ns ! a) = Suc a"
  proof (intro allI impI)
    fix a assume a: "a < length ns"
    have "node_id (ns ! a) = map node_id ns ! a" using a by simp
    also have "\<dots> = [1..<Suc (length ns)] ! a" by (simp only: ids)
    also have "\<dots> = Suc a" using a by (simp add: nth_upt del: upt_Suc)
    finally show "node_id (ns ! a) = Suc a" .
  qed
  have hd: "hd ns = ns ! 0" using ne by (simp add: hd_conv_nth)
  show "parentId (ns ! 0) = None" "depth (ns ! 0) = 0"
    using assms hd by (simp_all add: wf_tree_def)
  have tl: "\<forall>j<length (tl ns). (case parentId (tl ns ! j) of None \<Rightarrow> False
        | Some p \<Rightarrow> 1 \<le> p \<and> p < node_id (tl ns ! j) \<and> depth (tl ns ! j) = depth (ns ! (p - 1)) + 1)"
    using assms unfolding wf_tree_def list_all_length by simp
  show "\<forall>a<length ns. 0 < a \<longrightarrow> (\<exists>p. parentId (ns ! a) = Some p \<and> 1 \<le> p \<and> p \<le> a
        \<and> depth (ns ! a) = depth (ns ! (p - 1)) + 1)"
  proof (intro allI impI)
    fix a assume a: "a < length ns" "0 < a"
    then obtain j where j: "a = Suc j" by (cases a) simp_all
    have jl: "j < length (tl ns)" using a j by simp
    have nth: "tl ns ! j = ns ! a" using jl j by (simp add: nth_tl)
    have "case parentId (ns ! a) of None \<Rightarrow> False
        | Some p \<Rightarrow> 1 \<le> p \<and> p < node_id (ns ! a) \<and> depth (ns ! a) = depth (ns ! (p - 1)) + 1"
      using tl [rule_format, OF jl] by (simp only: nth)
    moreover have "node_id (ns ! a) = Suc a" using idx a by simp
    ultimately show "\<exists>p. parentId (ns ! a) = Some p \<and> 1 \<le> p \<and> p \<le> a
        \<and> depth (ns ! a) = depth (ns ! (p - 1)) + 1"
      by (cases "parentId (ns ! a)") auto
  qed
qed

section \<open>The result of generateTree\<close>

lemma upto_depth_fields:
  assumes "(m::node)\<lparr>depth := 0\<rparr> = m'\<lparr>depth := 0\<rparr>"
  shows "node_id m = node_id m'" "name m = name m'" "parentId m = parentId m'" "level m = level m'"
    "node_value m = node_value m'"
proof -
  have "node_id (m\<lparr>depth := 0\<rparr>) = node_id (m'\<lparr>depth := 0\<rparr>)" by (simp only: assms)
  then show "node_id m = node_id m'" by simp
  have "name (m\<lparr>depth := 0\<rparr>) = name (m'\<lparr>depth := 0\<rparr>)" by (simp only: assms)
  then show "name m = name m'" by simp
  have "parentId (m\<lparr>depth := 0\<rparr>) = parentId (m'\<lparr>depth := 0\<rparr>)" by (simp only: assms)
  then show "parentId m = parentId m'" by simp
  have "level (m\<lparr>depth := 0\<rparr>) = level (m'\<lparr>depth := 0\<rparr>)" by (simp only: assms)
  then show "level m = level m'" by simp
  have "node_value (m\<lparr>depth := 0\<rparr>) = node_value (m'\<lparr>depth := 0\<rparr>)" by (simp only: assms)
  then show "node_value m = node_value m'" by simp
qed

lemma generated_inv:
  "gen_inv (generated total_n mc seed)"
  "int (length (generated total_n mc seed)) = max 1 total_n"
proof -
  let ?g0 = "\<lparr>g_nodes = [root_node], g_childCount = [1 \<mapsto> 0], g_rng = randSeeded seed\<rparr>"
  have g0: "gen_inv (g_nodes ?g0)" by (simp add: gen_inv_def root_node_def)
  have i: "2 = Suc (length (g_nodes ?g0))" by simp
  show "gen_inv (generated total_n mc seed)"
    "int (length (generated total_n mc seed)) = max 1 total_n"
    using generate_loop_inv [OF g0 i, of total_n mc] by (simp_all add: generated_def)
qed

lemma generate_loop_first:
  "g_nodes g \<noteq> [] \<Longrightarrow> g_nodes (generate_loop total_n mc i g) ! 0 = g_nodes g ! 0"
proof (induction total_n mc i g rule: generate_loop.induct)
  case (1 total_n mc i g)
  show ?case
  proof (cases "int i \<le> total_n")
    case True
    obtain m where m: "g_nodes (generate_node mc i g) = g_nodes g @ [m]"
      using generate_node_nodes [OF "1.prems", of mc i] by blast
    then have ne: "g_nodes (generate_node mc i g) \<noteq> []" by simp
    have "g_nodes (generate_node mc i g) ! 0 = g_nodes g ! 0"
      using m "1.prems" by (simp add: nth_append)
    then show ?thesis
      using "1.IH" [OF True ne] True by (subst generate_loop.simps) simp
  next
    case False
    then show ?thesis by (subst generate_loop.simps) simp
  qed
qed

lemma generated_root: "generated total_n mc seed ! 0 = root_node"
  unfolding generated_def by (subst generate_loop_first) simp_all

lemma generateTree_result:
  "\<exists>ns. generateTree total_n mc seed = Some (Inr ns) \<and> wf_tree ns
      \<and> int (length ns) = max 1 total_n
      \<and> map name ns = map name (generated total_n mc seed)
      \<and> map level ns = map level (generated total_n mc seed)
      \<and> map node_value ns = map node_value (generated total_n mc seed)"
proof -
  let ?G = "generated total_n mc seed"
  let ?n = "length ?G"
  note g = generated_inv(1) [of total_n mc seed]
  obtain ns' where ns': "bfs_depth (mk_byId ?G) (mk_childrenMap ?G) [1] (?G[0 := (?G ! 0)\<lparr>depth := 0\<rparr>]) = Some (Inr ns')"
      and inv: "bfs_inv ?G {1..?n} [] ns'"
    using bfs_depth_total [OF g bfs_inv_init [OF g]] by blast
  let ?ns = "mark_hasChildren (layout ns')"
  have res: "generateTree total_n mc seed = Some (Inr ?ns)"
    using ns' by (simp add: generateTree_def generated_def Let_def)
  note d = inv [unfolded bfs_inv_def]
  have len': "length ns' = ?n" using d by (elim conjE)
  have same: "\<forall>a<?n. (ns' ! a)\<lparr>depth := 0\<rparr> = (?G ! a)\<lparr>depth := 0\<rparr>" using d by (elim conjE)
  have d0: "depth (ns' ! 0) = 0" using d by (elim conjE)
  have "\<forall>k\<in>set [] \<union> {1..?n}. \<forall>p. parentId (?G ! (k - 1)) = Some p \<longrightarrow>
         depth (ns' ! (k - 1)) = depth (ns' ! (p - 1)) + 1"
    using d by (elim conjE)
  then have dk: "\<And>k p. 1 \<le> k \<Longrightarrow> k \<le> ?n \<Longrightarrow> parentId (?G ! (k - 1)) = Some p \<Longrightarrow>
         depth (ns' ! (k - 1)) = depth (ns' ! (p - 1)) + 1"
    by simp
  have len: "length ?ns = ?n" by (simp add: finish_length len')
  have ne: "?G \<noteq> []" and gid: "\<forall>a<?n. node_id (?G ! a) = Suc a" and groot: "parentId (?G ! 0) = None"
    and gpar: "\<forall>a<?n. 0 < a \<longrightarrow> (\<exists>p. parentId (?G ! a) = Some p \<and> 1 \<le> p \<and> p \<le> a)"
    using g by (simp_all add: gen_inv_def)
  have pos: "0 < ?n" using ne by simp
  have same': "\<And>a. a < ?n \<Longrightarrow> (ns' ! a)\<lparr>depth := 0\<rparr> = (?G ! a)\<lparr>depth := 0\<rparr>"
    using same by blast
  have f_id: "node_id (?ns ! a) = node_id (?G ! a)" if "a < ?n" for a
  proof -
    have "node_id (?ns ! a) = node_id (ns' ! a)" by (rule finish_nth) (simp_all add: len' that)
    also have "\<dots> = node_id (?G ! a)" by (rule upto_depth_fields(1) [OF same' [OF that]])
    finally show ?thesis .
  qed
  have f_par: "parentId (?ns ! a) = parentId (?G ! a)" if "a < ?n" for a
  proof -
    have "parentId (?ns ! a) = parentId (ns' ! a)" by (rule finish_nth) (simp_all add: len' that)
    also have "\<dots> = parentId (?G ! a)" by (rule upto_depth_fields(3) [OF same' [OF that]])
    finally show ?thesis .
  qed
  have f_dep: "depth (?ns ! a) = depth (ns' ! a)" if "a < ?n" for a
    by (rule finish_nth) (simp_all add: len' that)
  have wf: "wf_tree ?ns"
  proof (rule wf_treeI)
    show "?ns \<noteq> []" using len pos by auto
    show "\<forall>a<length ?ns. node_id (?ns ! a) = Suc a" using f_id gid len by simp
    show "parentId (?ns ! 0) = None" using f_par [OF pos] groot by simp
    show "depth (?ns ! 0) = 0" using f_dep [OF pos] d0 by simp
    show "\<forall>a<length ?ns. 0 < a \<longrightarrow> (\<exists>p. parentId (?ns ! a) = Some p \<and> 1 \<le> p \<and> p \<le> a
        \<and> depth (?ns ! a) = depth (?ns ! (p - 1)) + 1)"
    proof (intro allI impI)
      fix a assume a: "a < length ?ns" "0 < a"
      then have an: "a < ?n" using len by simp
      obtain p where p: "parentId (?G ! a) = Some p" "1 \<le> p" "p \<le> a"
        using gpar an a(2) by blast
      have pn: "p - 1 < ?n" using p an by simp
      have "depth (ns' ! (Suc a - 1)) = depth (ns' ! (p - 1)) + 1"
        using dk [of "Suc a" p] an p(1) by simp
      then have "depth (?ns ! a) = depth (?ns ! (p - 1)) + 1"
        using f_dep [OF an] f_dep [OF pn] by simp
      then show "\<exists>p. parentId (?ns ! a) = Some p \<and> 1 \<le> p \<and> p \<le> a
        \<and> depth (?ns ! a) = depth (?ns ! (p - 1)) + 1"
        using f_par [OF an] p by simp
    qed
  qed
  have flds: "map name ns' = map name ?G" "map level ns' = map level ?G"
    "map node_value ns' = map node_value ?G"
  proof -
    show "map name ns' = map name ?G"
      by (rule nth_equalityI) (simp_all add: len' upto_depth_fields(2) [OF same'])
    show "map level ns' = map level ?G"
      by (rule nth_equalityI) (simp_all add: len' upto_depth_fields(4) [OF same'])
    show "map node_value ns' = map node_value ?G"
      by (rule nth_equalityI) (simp_all add: len' upto_depth_fields(5) [OF same'])
  qed
  have "map name ?ns = map name ?G" "map level ?ns = map level ?G" "map node_value ?ns = map node_value ?G"
    using flds by (simp_all add: finish_map)
  then show ?thesis
    using res wf len generated_inv(2) [of total_n mc seed] by simp
qed


lemma generateTree_root_value:
  assumes "generateTree total_n mc seed = Some (Inr ns)"
  shows "node_value (ns ! 0) = 0"
proof -
  obtain ns' where ns': "generateTree total_n mc seed = Some (Inr ns')" "wf_tree ns'"
      "map node_value ns' = map node_value (generated total_n mc seed)"
    using generateTree_result [of total_n mc seed] by blast
  have eq: "ns' = ns" using ns'(1) assms by simp
  have pos: "0 < length ns" using ns'(2) eq by (cases ns) (simp_all add: wf_tree_def)
  have "node_value (ns ! 0) = map node_value ns ! 0" using pos by simp
  also have "\<dots> = map node_value (generated total_n mc seed) ! 0" using ns'(3) eq by simp
  also have "\<dots> = node_value (generated total_n mc seed ! 0)"
    using generated_inv(1) [of total_n mc seed] by (simp add: gen_inv_def)
  also have "\<dots> = 0" by (simp add: generated_root root_node_def)
  finally show ?thesis .
qed

section \<open>The ancestor walk of isVisible\<close>

lemma nodesById_fold:
  "(\<forall>a<length ns. node_id (ns ! a) = Suc a) \<Longrightarrow>
     fold (\<lambda>m idx. idx(node_id m \<mapsto> m)) ns Map.empty k
       = (if 1 \<le> k \<and> k \<le> length ns then Some (ns ! (k - 1)) else None)"
proof (induction ns rule: rev_induct)
  case Nil
  then show ?case by simp
next
  case (snoc x xs)
  have ids: "\<forall>a<length xs. node_id (xs ! a) = Suc a"
  proof (intro allI impI)
    fix a assume a: "a < length xs"
    then have "node_id ((xs @ [x]) ! a) = Suc a" using snoc.prems by simp
    then show "node_id (xs ! a) = Suc a" using a by (simp add: nth_append)
  qed
  have x: "node_id x = Suc (length xs)"
    using snoc.prems [rule_format, of "length xs"] by simp
  show ?case
    using snoc.IH [OF ids] x by (auto simp: nth_append)
qed

lemma nodesById_wf:
  assumes "wf_tree (nodes e)"
  shows "nodesById e k = (if 1 \<le> k \<and> k \<le> length (nodes e) then Some (nodes e ! (k - 1)) else None)"
  unfolding nodesById_def mk_nodesById_def by (rule nodesById_fold) (rule wf_treeD(2) [OF assms])

lemma nodesById_collapsed [simp]: "nodesById (e\<lparr>collapsed := S\<rparr>) = nodesById e"
  by (simp add: nodesById_def)

lemma is_ancestor_root:
  assumes "parentId m = None"
  shows "\<not> is_ancestor byId c m"
  using assms by (auto elim: is_ancestor.cases)

lemma is_ancestor_step:
  assumes "parentId m = Some p" "byId p = Some pn"
  shows "is_ancestor byId c m \<longleftrightarrow> c = p \<or> is_ancestor byId c pn"
  using assms by (auto elim: is_ancestor.cases intro: is_ancestor.intros)

lemma wf_tree_parent:
  assumes wf: "wf_tree (nodes e)" and a: "a < length (nodes e)" "0 < a"
  obtains p where "parentId (nodes e ! a) = Some p" "1 \<le> p" "p \<le> a"
    "depth (nodes e ! a) = depth (nodes e ! (p - 1)) + 1"
    "nodesById e p = Some (nodes e ! (p - 1))"
proof -
  obtain p where p: "parentId (nodes e ! a) = Some p" "1 \<le> p" "p \<le> a"
    "depth (nodes e ! a) = depth (nodes e ! (p - 1)) + 1"
    using wf_treeD(5) [OF wf] a by blast
  have "nodesById e p = Some (nodes e ! (p - 1))"
    using p(2,3) a(1) by (simp add: nodesById_wf [OF wf])
  then show ?thesis using that p by blast
qed

lemma isVisible_loop_walk:
  assumes wf: "wf_tree (nodes e)"
  shows "a < length (nodes e) \<Longrightarrow> 0 \<le> i \<Longrightarrow> int (depth (nodes e ! a)) + i \<le> maxDepth e \<Longrightarrow>
    isVisible_loop e i (Some (nodes e ! a))
      = Inr (\<forall>c. is_ancestor (nodesById e) c (nodes e ! a) \<longrightarrow> c \<notin> collapsed e)"
proof (induction a arbitrary: i rule: less_induct)
  case (less a)
  show ?case
  proof (cases "a = 0")
    case True
    have root: "parentId (nodes e ! a) = None" using wf_treeD(3) [OF wf] True by simp
    show ?thesis
      by (subst isVisible_loop.simps) (simp add: root is_ancestor_root)
  next
    case False
    then have pos: "0 < a" by simp
    obtain p where p: "parentId (nodes e ! a) = Some p" "1 \<le> p" "p \<le> a"
      "depth (nodes e ! a) = depth (nodes e ! (p - 1)) + 1"
      "nodesById e p = Some (nodes e ! (p - 1))"
      using wf_tree_parent [OF wf less.prems(1) pos] by blast
    have lt: "i < maxDepth e" using less.prems(3) p(4) by simp
    have anc: "\<And>c. is_ancestor (nodesById e) c (nodes e ! a)
        \<longleftrightarrow> c = p \<or> is_ancestor (nodesById e) c (nodes e ! (p - 1))"
      by (rule is_ancestor_step [of "nodes e ! a" p "nodesById e" "nodes e ! (p - 1)", OF p(1) p(5)])
    show ?thesis
    proof (cases "p \<in> collapsed e")
      case True
      then show ?thesis
        using lt by (subst isVisible_loop.simps) (auto simp: p(1) anc)
    next
      case False
      have pa: "p - 1 < a" "p - 1 < length (nodes e)" using p(2,3) less.prems(1) by simp_all
      have "isVisible_loop e (i + 1) (Some (nodes e ! (p - 1)))
          = Inr (\<forall>c. is_ancestor (nodesById e) c (nodes e ! (p - 1)) \<longrightarrow> c \<notin> collapsed e)"
        using less.IH [OF pa(1) pa(2), of "i + 1"] less.prems(2,3) p(4) by simp
      then show ?thesis
        using lt False by (subst isVisible_loop.simps) (auto simp: p(1) p(5) anc)
    qed
  qed
qed

lemma in_set_nodes:
  assumes "n \<in> set ns"
  obtains a where "a < length ns" "n = ns ! a"
  using assms by (auto simp: in_set_conv_nth)

lemma isVisible_wf:
  assumes wf: "wf_tree (nodes e)" and n: "n \<in> set (nodes e)"
  shows "isVisible e n = Inr (int (depth n) \<le> maxDepth e \<and> minAmt e \<le> node_value n
           \<and> (\<forall>c. is_ancestor (nodesById e) c n \<longrightarrow> c \<notin> collapsed e))"
proof -
  obtain a where a: "a < length (nodes e)" "n = nodes e ! a" using n by (rule in_set_nodes)
  show ?thesis
  proof (cases "int (depth n) \<le> maxDepth e \<and> minAmt e \<le> node_value n")
    case True
    then have "int (depth (nodes e ! a)) + 0 \<le> maxDepth e" using a(2) by simp
    then have "isVisible_loop e 0 (Some n)
          = Inr (\<forall>c. is_ancestor (nodesById e) c n \<longrightarrow> c \<notin> collapsed e)"
      using isVisible_loop_walk [OF wf a(1), of 0] a(2) by simp
    then show ?thesis using True by (simp add: isVisible_def)
  next
    case False
    then show ?thesis by (auto simp: isVisible_def)
  qed
qed

lemma ancestor_smaller:
  assumes wf: "wf_tree (nodes e)"
  shows "is_ancestor (nodesById e) c m \<Longrightarrow> m \<in> set (nodes e) \<Longrightarrow> 1 \<le> c \<and> c < node_id m"
proof (induction rule: is_ancestor.induct)
  case (parent m p)
  obtain a where a: "a < length (nodes e)" "m = nodes e ! a" using parent(2) by (rule in_set_nodes)
  have pos: "0 < a" using parent(1) a wf_treeD(3) [OF wf] by (cases a) simp_all
  obtain p' where "parentId (nodes e ! a) = Some p'" "1 \<le> p'" "p' \<le> a"
    using wf_tree_parent [OF wf a(1) pos] by blast
  moreover have "node_id m = Suc a" using wf_treeD(2) [OF wf] a by simp
  ultimately show ?case using parent(1) a(2) by simp
next
  case (further m p pn c)
  obtain a where a: "a < length (nodes e)" "m = nodes e ! a" using further.prems by (rule in_set_nodes)
  have pos: "0 < a" using further(1) a wf_treeD(3) [OF wf] by (cases a) simp_all
  obtain p' where p': "parentId (nodes e ! a) = Some p'" "1 \<le> p'" "p' \<le> a"
     "nodesById e p' = Some (nodes e ! (p' - 1))"
    using wf_tree_parent [OF wf a(1) pos] by blast
  have pp: "p' = p" using p'(1) further(1) a(2) by simp
  have pn: "pn = nodes e ! (p - 1)" using p'(4) further(2) pp by simp
  have pl: "p - 1 < length (nodes e)" using p'(2,3) a(1) pp by simp
  then have "pn \<in> set (nodes e)" using pn by simp
  then have "1 \<le> c \<and> c < node_id pn" by (rule further.IH)
  moreover have "node_id pn = p" using wf_treeD(2) [OF wf] pl pn p'(2) pp by simp
  moreover have "node_id m = Suc a" using wf_treeD(2) [OF wf] a by simp
  ultimately show ?case using p'(3) pp by simp
qed

lemma not_own_ancestor:
  assumes "wf_tree (nodes e)" "m \<in> set (nodes e)"
  shows "\<not> is_ancestor (nodesById e) (node_id m) m"
  using ancestor_smaller [OF assms(1), of "node_id m" m] assms(2) by auto

lemma root_is_ancestor:
  assumes wf: "wf_tree (nodes e)"
  shows "a < length (nodes e) \<Longrightarrow> 0 < a \<Longrightarrow> is_ancestor (nodesById e) 1 (nodes e ! a)"
proof (induction a rule: less_induct)
  case (less a)
  obtain p where p: "parentId (nodes e ! a) = Some p" "1 \<le> p" "p \<le> a"
      "nodesById e p = Some (nodes e ! (p - 1))"
    using wf_tree_parent [OF wf less.prems] by blast
  show ?case
  proof (cases "p = 1")
    case True
    then show ?thesis using p(1) by (simp add: is_ancestor.parent)
  next
    case False
    then have "p - 1 < a" "p - 1 < length (nodes e)" "0 < p - 1" using p(2,3) less.prems(1) by simp_all
    then have "is_ancestor (nodesById e) 1 (nodes e ! (p - 1))" by (rule less.IH)
    then show ?thesis using p(1,4) by (rule is_ancestor.further [rotated 2])
  qed
qed

section \<open>Visibility\<close>

lemma parent_chain_depth:
  assumes wf: "wf_tree (nodes e)"
  shows "a < length (nodes e) \<Longrightarrow> parent_chain (nodesById e) (nodes e ! a) (depth (nodes e ! a))"
proof (induction a rule: less_induct)
  case (less a)
  show ?case
  proof (cases "a = 0")
    case True
    then show ?thesis
      using wf_treeD(3,4) [OF wf] by (simp add: parent_chain.at_root)
  next
    case False
    then have pos: "0 < a" by simp
    obtain p where p: "parentId (nodes e ! a) = Some p" "1 \<le> p" "p \<le> a"
      "depth (nodes e ! a) = depth (nodes e ! (p - 1)) + 1"
      "nodesById e p = Some (nodes e ! (p - 1))"
      using wf_tree_parent [OF wf less.prems pos] by blast
    have "p - 1 < a" "p - 1 < length (nodes e)" using p(2,3) less.prems by simp_all
    then have "parent_chain (nodesById e) (nodes e ! (p - 1)) (depth (nodes e ! (p - 1)))"
      by (rule less.IH)
    then have "parent_chain (nodesById e) (nodes e ! a) (Suc (depth (nodes e ! (p - 1))))"
      using p(1,5) by (rule parent_chain.below [rotated 2])
    then show ?thesis using p(4) by simp
  qed
qed

lemma parent_chain_unique:
  "parent_chain byId m l \<Longrightarrow> parent_chain byId m l' \<Longrightarrow> l = l'"
proof (induction arbitrary: l' rule: parent_chain.induct)
  case (at_root m)
  then show ?case by (auto elim: parent_chain.cases)
next
  case (below m p pn l)
  from below.prems below.hyps(1,2) obtain k where "l' = Suc k" "parent_chain byId pn k"
    by (auto elim: parent_chain.cases)
  then show ?case using below.IH by simp
qed

lemma ancestor_walk_wf:
  assumes wf: "wf_tree (nodes e)"
  shows "a < length (nodes e) \<Longrightarrow>
    ancestor_walk e (Some (nodes e ! a))
      = Some (Inr (\<forall>c. is_ancestor (nodesById e) c (nodes e ! a) \<longrightarrow> c \<notin> collapsed e))"
proof (induction a rule: less_induct)
  case (less a)
  show ?case
  proof (cases "a = 0")
    case True
    have root: "parentId (nodes e ! a) = None" using wf_treeD(3) [OF wf] True by simp
    show ?thesis
      by (subst ancestor_walk.simps) (simp add: root is_ancestor_root)
  next
    case False
    then have pos: "0 < a" by simp
    obtain p where p: "parentId (nodes e ! a) = Some p" "1 \<le> p" "p \<le> a"
      "nodesById e p = Some (nodes e ! (p - 1))"
      using wf_tree_parent [OF wf less.prems pos] by blast
    have anc: "\<And>c. is_ancestor (nodesById e) c (nodes e ! a)
        \<longleftrightarrow> c = p \<or> is_ancestor (nodesById e) c (nodes e ! (p - 1))"
      by (rule is_ancestor_step [of "nodes e ! a" p "nodesById e" "nodes e ! (p - 1)", OF p(1) p(4)])
    show ?thesis
    proof (cases "p \<in> collapsed e")
      case True
      then show ?thesis
        by (subst ancestor_walk.simps) (auto simp: p(1) anc)
    next
      case False
      have pa: "p - 1 < a" "p - 1 < length (nodes e)" using p(2,3) less.prems by simp_all
      have "ancestor_walk e (Some (nodes e ! (p - 1)))
          = Some (Inr (\<forall>c. is_ancestor (nodesById e) c (nodes e ! (p - 1)) \<longrightarrow> c \<notin> collapsed e))"
        by (rule less.IH [OF pa])
      then show ?thesis
        using False by (subst ancestor_walk.simps) (auto simp: p(1) p(4) anc)
    qed
  qed
qed

text \<open>
  C1. In a well-formed tree, \<open>isVisible\<close> returns (without throwing) the truth value of:
  the depth is at most \<open>maxDepth\<close>, the value at least \<open>minAmt\<close>, and no id met on the whole
  parent chain, walked without bound, is in the collapse set. A node's parent chain has
  exactly \<open>depth\<close> steps, so for a node that passes the depth test the walk of the code,
  bounded by \<open>maxDepth\<close> rounds, returns what the walk without bound returns. Putting a
  node's own id into the collapse set does not change the visibility of that node.
\<close>

theorem isVisible_contract:
  assumes "wf_tree (nodes e)" and "n \<in> set (nodes e)"
  shows "isVisible e n = Inr (int (depth n) \<le> maxDepth e \<and> minAmt e \<le> node_value n
             \<and> (\<forall>a. is_ancestor (nodesById e) a n \<longrightarrow> a \<notin> collapsed e))
       \<and> parent_chain (nodesById e) n (depth n)
       \<and> (int (depth n) \<le> maxDepth e \<longrightarrow> ancestor_walk e (Some n) = Some (isVisible_loop e 0 (Some n)))
       \<and> isVisible (e\<lparr>collapsed := insert (node_id n) (collapsed e)\<rparr>) n = isVisible e n"
proof -
  let ?e' = "e\<lparr>collapsed := insert (node_id n) (collapsed e)\<rparr>"
  obtain a where a: "a < length (nodes e)" "n = nodes e ! a" using assms(2) by (rule in_set_nodes)
  have wf': "wf_tree (nodes ?e')" and n': "n \<in> set (nodes ?e')" using assms by simp_all
  have own: "\<not> is_ancestor (nodesById e) (node_id n) n" by (rule not_own_ancestor [OF assms])
  have p4: "isVisible ?e' n = isVisible e n"
    unfolding isVisible_wf [OF wf' n'] isVisible_wf [OF assms] using own by auto
  have p2: "parent_chain (nodesById e) n (depth n)"
    using parent_chain_depth [OF assms(1) a(1)] a(2) by simp
  have p3: "int (depth n) \<le> maxDepth e \<longrightarrow> ancestor_walk e (Some n) = Some (isVisible_loop e 0 (Some n))"
  proof
    assume "int (depth n) \<le> maxDepth e"
    then have "isVisible_loop e 0 (Some n)
        = Inr (\<forall>c. is_ancestor (nodesById e) c n \<longrightarrow> c \<notin> collapsed e)"
      using isVisible_loop_walk [OF assms(1) a(1), of 0] a(2) by simp
    then show "ancestor_walk e (Some n) = Some (isVisible_loop e 0 (Some n))"
      using ancestor_walk_wf [OF assms(1) a(1)] a(2) by simp
  qed
  show ?thesis
    by (intro conjI) (fact isVisible_wf [OF assms] p2 p3 p4)+
qed

theorem isVisible_contract_witness:
  "wf_tree (nodes ((example_view example_chain)\<lparr>collapsed := {2}\<rparr>))
   \<and> example_chain ! 1 \<in> set (nodes ((example_view example_chain)\<lparr>collapsed := {2}\<rparr>))
   \<and> isVisible ((example_view example_chain)\<lparr>collapsed := {2}\<rparr>) (example_chain ! 1)
       = Inr (int (depth (example_chain ! 1)) \<le> maxDepth ((example_view example_chain)\<lparr>collapsed := {2}\<rparr>)
            \<and> minAmt ((example_view example_chain)\<lparr>collapsed := {2}\<rparr>) \<le> node_value (example_chain ! 1)
            \<and> (\<forall>a. is_ancestor (nodesById ((example_view example_chain)\<lparr>collapsed := {2}\<rparr>)) a (example_chain ! 1)
                  \<longrightarrow> a \<notin> collapsed ((example_view example_chain)\<lparr>collapsed := {2}\<rparr>)))
   \<and> isVisible ((example_view example_chain)\<lparr>collapsed := {2}\<rparr>) (example_chain ! 1) = Inr True"
proof -
  let ?e = "(example_view example_chain)\<lparr>collapsed := {2}\<rparr>"
  have h1: "wf_tree (nodes ?e)"
    by (simp add: example_view_def wf_tree_def example_chain_def upt_conv_Cons)
  have h2: "example_chain ! 1 \<in> set (nodes ?e)"
    by (simp add: example_view_def example_chain_def)
  have v: "isVisible ?e (example_chain ! 1) = Inr True"
    by (simp add: isVisible_def isVisible_loop.simps nodesById_def mk_nodesById_def
        example_view_def example_chain_def)
  show ?thesis
    using h1 h2 v isVisible_contract [OF h1 h2] by simp
qed


lemma toggle_absent: "c \<notin> S \<Longrightarrow> toggle S c = insert c S"
  by (simp add: toggle_def)

lemma toggle_twice: "toggle (toggle S c) c = S"
  by (auto simp: toggle_def)

lemma descendant_hidden:
  assumes wf: "wf_tree (nodes e)" and d: "d \<in> set (nodes e)"
    and anc: "is_ancestor (nodesById e) c d"
  shows "isVisible (e\<lparr>collapsed := insert c (collapsed e)\<rparr>) d = Inr False"
proof -
  let ?e' = "e\<lparr>collapsed := insert c (collapsed e)\<rparr>"
  have wf': "wf_tree (nodes ?e')" and d': "d \<in> set (nodes ?e')" using wf d by simp_all
  show ?thesis
    unfolding isVisible_wf [OF wf' d'] using anc by auto
qed

lemma other_unchanged:
  assumes wf: "wf_tree (nodes e)" and m: "m \<in> set (nodes e)"
    and anc: "\<not> is_ancestor (nodesById e) c m"
  shows "isVisible (e\<lparr>collapsed := insert c (collapsed e)\<rparr>) m = isVisible e m"
proof -
  let ?e' = "e\<lparr>collapsed := insert c (collapsed e)\<rparr>"
  have wf': "wf_tree (nodes ?e')" and m': "m \<in> set (nodes ?e')" using wf m by simp_all
  show ?thesis
    unfolding isVisible_wf [OF wf' m'] isVisible_wf [OF wf m] using anc by auto
qed

lemma ancestor_not_descendant:
  assumes wf: "wf_tree (nodes e)" and c: "c \<in> set (nodes e)" and m: "m \<in> set (nodes e)"
    and anc: "is_ancestor (nodesById e) (node_id m) c"
  shows "\<not> is_ancestor (nodesById e) (node_id c) m"
proof
  assume "is_ancestor (nodesById e) (node_id c) m"
  then have "node_id c < node_id m" using ancestor_smaller [OF wf _ m] by blast
  moreover have "node_id m < node_id c" using ancestor_smaller [OF wf anc c] by blast
  ultimately show False by simp
qed

lemma non_root_below_root:
  assumes wf: "wf_tree (nodes e)" and m: "m \<in> set (nodes e)" and "node_id m \<noteq> 1"
  shows "is_ancestor (nodesById e) 1 m"
proof -
  obtain a where a: "a < length (nodes e)" "m = nodes e ! a" using m by (rule in_set_nodes)
  have "node_id m = Suc a" using wf_treeD(2) [OF wf] a by simp
  then have "0 < a" using assms(3) by simp
  then show ?thesis using root_is_ancestor [OF wf a(1)] a(2) by simp
qed

text \<open>
  C7 fails on the code in its last part. With a value filter of 50000 the root of the chain,
  whose value is 0, is not visible, neither before nor after the click that collapses it:
  \<open>isVisible\<close> of the root keeps its value, which need not be true.
\<close>

theorem collapse_root_stays_visible_counterexample:
  "node_id (example_chain ! 0) = 1
   \<and> node_id (example_chain ! 0) \<notin> collapsed ((example_view example_chain)\<lparr>minAmt := 50000\<rparr>)
   \<and> isVisible ((example_view example_chain)\<lparr>minAmt := 50000\<rparr>) (example_chain ! 0) = Inr False
   \<and> isVisible ((example_view example_chain)\<lparr>minAmt := 50000,
          collapsed := toggle (collapsed ((example_view example_chain)\<lparr>minAmt := 50000\<rparr>))
                         (node_id (example_chain ! 0))\<rparr>)
        (example_chain ! 0) = Inr False"
  by (simp add: isVisible_def example_view_def example_chain_def toggle_def)

text \<open>
  C7, amended. In a well-formed tree, for a node \<open>c\<close> whose id is not in the collapse set and
  with the filters \<open>maxDepth\<close> and \<open>minAmt\<close> unchanged: the click on \<open>c\<close> adds its id to the
  set; then \<open>isVisible\<close> is false for every descendant of \<open>c\<close>, and is what it was for \<open>c\<close>
  itself, for every ancestor of \<open>c\<close> and for every node that is not a descendant of \<open>c\<close>; a
  second click gives back the old collapse set and with it the old value of \<open>isVisible\<close> at
  every node. When \<open>c\<close> is the root (id 1), every other node is hidden, and \<open>isVisible\<close> of
  the root keeps its value: it is true exactly when \<open>maxDepth \<ge> 0\<close> and \<open>minAmt\<close> is at most
  the root's value, which is 0 in every tree that \<open>generateTree\<close> returns.
\<close>

theorem collapse_hides_exactly_descendants:
  fixes e :: view_state and c :: node
  defines "e' \<equiv> e\<lparr>collapsed := toggle (collapsed e) (node_id c)\<rparr>"
  assumes wf: "wf_tree (nodes e)" and c: "c \<in> set (nodes e)" and nc: "node_id c \<notin> collapsed e"
  shows "collapsed e' = insert (node_id c) (collapsed e)
    \<and> (\<forall>d\<in>set (nodes e). is_ancestor (nodesById e) (node_id c) d \<longrightarrow> isVisible e' d = Inr False)
    \<and> isVisible e' c = isVisible e c
    \<and> (\<forall>m\<in>set (nodes e). is_ancestor (nodesById e) (node_id m) c \<longrightarrow> isVisible e' m = isVisible e m)
    \<and> (\<forall>m\<in>set (nodes e). \<not> is_ancestor (nodesById e) (node_id c) m \<longrightarrow> isVisible e' m = isVisible e m)
    \<and> toggle (collapsed e') (node_id c) = collapsed e
    \<and> (\<forall>m. isVisible (e'\<lparr>collapsed := toggle (collapsed e') (node_id c)\<rparr>) m = isVisible e m)
    \<and> (node_id c = 1 \<longrightarrow> (\<forall>m\<in>set (nodes e). m \<noteq> c \<longrightarrow> isVisible e' m = Inr False))
    \<and> (node_id c = 1 \<longrightarrow> isVisible e' c = Inr (0 \<le> maxDepth e \<and> minAmt e \<le> node_value c))
    \<and> (node_id c = 1 \<and> generateTree total_n maxChildren seed = Some (Inr (nodes e)) \<longrightarrow>
          isVisible e' c = Inr (0 \<le> maxDepth e \<and> minAmt e \<le> 0))"
proof -
  have e': "e' = e\<lparr>collapsed := insert (node_id c) (collapsed e)\<rparr>"
    by (simp add: e'_def toggle_absent [OF nc])
  have p1: "collapsed e' = insert (node_id c) (collapsed e)" by (simp add: e')
  have p2: "\<forall>d\<in>set (nodes e). is_ancestor (nodesById e) (node_id c) d \<longrightarrow> isVisible e' d = Inr False"
    unfolding e' using descendant_hidden [OF wf] by blast
  have p5: "\<forall>m\<in>set (nodes e). \<not> is_ancestor (nodesById e) (node_id c) m \<longrightarrow> isVisible e' m = isVisible e m"
    unfolding e' using other_unchanged [OF wf] by blast
  have p3: "isVisible e' c = isVisible e c"
    using p5 c not_own_ancestor [OF wf c] by blast
  have p4: "\<forall>m\<in>set (nodes e). is_ancestor (nodesById e) (node_id m) c \<longrightarrow> isVisible e' m = isVisible e m"
    using p5 ancestor_not_descendant [OF wf c] by blast
  have p6: "toggle (collapsed e') (node_id c) = collapsed e"
    by (simp add: e'_def toggle_twice)
  have "e'\<lparr>collapsed := toggle (collapsed e') (node_id c)\<rparr> = e"
    unfolding p6 by (simp add: e'_def)
  then have p7: "\<forall>m. isVisible (e'\<lparr>collapsed := toggle (collapsed e') (node_id c)\<rparr>) m = isVisible e m"
    by simp
  obtain b where b: "b < length (nodes e)" "c = nodes e ! b" using c by (rule in_set_nodes)
  have idc: "node_id c = Suc b" using wf_treeD(2) [OF wf] b by simp
  have p8: "node_id c = 1 \<longrightarrow> (\<forall>m\<in>set (nodes e). m \<noteq> c \<longrightarrow> isVisible e' m = Inr False)"
  proof (intro impI ballI)
    fix m assume c1: "node_id c = 1" and m: "m \<in> set (nodes e)" "m \<noteq> c"
    obtain a where a: "a < length (nodes e)" "m = nodes e ! a" using m(1) by (rule in_set_nodes)
    have "b = 0" using c1 idc by simp
    then have "c = nodes e ! 0" using b(2) by simp
    then have "a \<noteq> 0" using a(2) m(2) by (cases a) simp_all
    then have "node_id m \<noteq> 1" using wf_treeD(2) [OF wf] a by simp
    then have "is_ancestor (nodesById e) (node_id c) m"
      using non_root_below_root [OF wf m(1)] c1 by simp
    then show "isVisible e' m = Inr False" using p2 m(1) by blast
  qed
  have p9: "node_id c = 1 \<longrightarrow> isVisible e' c = Inr (0 \<le> maxDepth e \<and> minAmt e \<le> node_value c)"
  proof
    assume "node_id c = 1"
    then have b0: "c = nodes e ! 0" using idc b(2) by simp
    have root: "parentId c = None" "depth c = 0" using wf_treeD(3,4) [OF wf] b0 by simp_all
    have "isVisible e c = Inr (0 \<le> maxDepth e \<and> minAmt e \<le> node_value c)"
      unfolding isVisible_wf [OF wf c] using root by (simp add: is_ancestor_root)
    then show "isVisible e' c = Inr (0 \<le> maxDepth e \<and> minAmt e \<le> node_value c)"
      using p3 by simp
  qed
  have p10: "node_id c = 1 \<and> generateTree total_n maxChildren seed = Some (Inr (nodes e)) \<longrightarrow>
          isVisible e' c = Inr (0 \<le> maxDepth e \<and> minAmt e \<le> 0)"
  proof
    assume h: "node_id c = 1 \<and> generateTree total_n maxChildren seed = Some (Inr (nodes e))"
    then have b0: "c = nodes e ! 0" using idc b(2) by simp
    have g: "generateTree total_n maxChildren seed = Some (Inr (nodes e))" using h by simp
    have "node_value (nodes e ! 0) = 0" by (rule generateTree_root_value [OF g])
    then have "node_value c = 0" using b0 by simp
    then show "isVisible e' c = Inr (0 \<le> maxDepth e \<and> minAmt e \<le> 0)"
      using p9 h by simp
  qed
  show ?thesis
    by (intro conjI) (fact p1 p2 p3 p4 p5 p6 p7 p8 p9 p10)+
qed

theorem collapse_hides_exactly_descendants_witness:
  "wf_tree (nodes (example_view example_chain))
   \<and> example_chain ! 1 \<in> set (nodes (example_view example_chain))
   \<and> node_id (example_chain ! 1) \<notin> collapsed (example_view example_chain)
   \<and> is_ancestor (nodesById (example_view example_chain)) (node_id (example_chain ! 1)) (example_chain ! 2)
   \<and> isVisible (example_view example_chain) (example_chain ! 2) = Inr True
   \<and> isVisible ((example_view example_chain)\<lparr>collapsed := toggle (collapsed (example_view example_chain)) (node_id (example_chain ! 1))\<rparr>)
        (example_chain ! 2) = Inr False
   \<and> isVisible ((example_view example_chain)\<lparr>collapsed := toggle (collapsed (example_view example_chain)) (node_id (example_chain ! 1))\<rparr>)
        (example_chain ! 1) = isVisible (example_view example_chain) (example_chain ! 1)
   \<and> isVisible (example_view example_chain) (example_chain ! 1) = Inr True
   \<and> example_chain ! 0 \<in> set (nodes (example_view example_chain))
   \<and> node_id (example_chain ! 0) = 1
   \<and> node_id (example_chain ! 0) \<notin> collapsed (example_view example_chain)
   \<and> isVisible ((example_view example_chain)\<lparr>collapsed := toggle (collapsed (example_view example_chain)) (node_id (example_chain ! 0))\<rparr>)
        (example_chain ! 1) = Inr False
   \<and> isVisible ((example_view example_chain)\<lparr>collapsed := toggle (collapsed (example_view example_chain)) (node_id (example_chain ! 0))\<rparr>)
        (example_chain ! 2) = Inr False
   \<and> isVisible ((example_view example_chain)\<lparr>collapsed := toggle (collapsed (example_view example_chain)) (node_id (example_chain ! 0))\<rparr>)
        (example_chain ! 0) = Inr True"
proof -
  let ?e = "example_view example_chain"
  let ?c = "example_chain ! 1"
  let ?r = "example_chain ! 0"
  have h1: "wf_tree (nodes ?e)"
    by (simp add: example_view_def wf_tree_def example_chain_def upt_conv_Cons)
  have h2: "?c \<in> set (nodes ?e)" by (simp add: example_view_def example_chain_def)
  have h3: "node_id ?c \<notin> collapsed ?e" by (simp add: example_view_def)
  have h4: "example_chain ! 2 \<in> set (nodes ?e)" by (simp add: example_view_def example_chain_def)
  have anc: "is_ancestor (nodesById ?e) (node_id ?c) (example_chain ! 2)"
    by (rule is_ancestor.parent) (simp add: example_chain_def)
  have v2: "isVisible ?e (example_chain ! 2) = Inr True" and v1: "isVisible ?e ?c = Inr True"
    by (simp_all add: isVisible_def isVisible_loop.simps nodesById_def mk_nodesById_def
        example_view_def example_chain_def)
  note t = collapse_hides_exactly_descendants [OF h1 h2 h3]
  have w1: "isVisible (?e\<lparr>collapsed := toggle (collapsed ?e) (node_id ?c)\<rparr>) (example_chain ! 2) = Inr False"
    using t [THEN conjunct2, THEN conjunct1] h4 anc by blast
  have w2: "isVisible (?e\<lparr>collapsed := toggle (collapsed ?e) (node_id ?c)\<rparr>) ?c = isVisible ?e ?c"
    using t [THEN conjunct2, THEN conjunct2, THEN conjunct1] .
  have r2: "?r \<in> set (nodes ?e)" by (simp add: example_view_def example_chain_def)
  have r1: "node_id ?r = 1" by (simp add: example_chain_def)
  have r3: "node_id ?r \<notin> collapsed ?e" by (simp add: example_view_def)
  have ne1: "?c \<noteq> ?r" and ne2: "example_chain ! 2 \<noteq> ?r" by (simp_all add: example_chain_def)
  note u = collapse_hides_exactly_descendants [OF h1 r2 r3]
  have hide: "\<forall>m\<in>set (nodes ?e). m \<noteq> ?r \<longrightarrow>
      isVisible (?e\<lparr>collapsed := toggle (collapsed ?e) (node_id ?r)\<rparr>) m = Inr False"
    using u r1 by blast
  have w3: "isVisible (?e\<lparr>collapsed := toggle (collapsed ?e) (node_id ?r)\<rparr>) ?c = Inr False"
    using hide h2 ne1 by blast
  have w4: "isVisible (?e\<lparr>collapsed := toggle (collapsed ?e) (node_id ?r)\<rparr>) (example_chain ! 2) = Inr False"
    using hide h4 ne2 by blast
  have "isVisible (?e\<lparr>collapsed := toggle (collapsed ?e) (node_id ?r)\<rparr>) ?r
      = Inr (0 \<le> maxDepth ?e \<and> minAmt ?e \<le> node_value ?r)"
    using u r1 by blast
  then have w5: "isVisible (?e\<lparr>collapsed := toggle (collapsed ?e) (node_id ?r)\<rparr>) ?r = Inr True"
    by (simp add: example_view_def example_chain_def)
  show ?thesis
    by (intro conjI) (fact h1 h2 h3 anc v2 w1 w2 v1 r2 r1 r3 w3 w4 w5)+
qed

section \<open>Generation: shape, levels, configuration\<close>

lemma generated_le1: "total_n \<le> 1 \<Longrightarrow> generated total_n mc seed = [root_node]"
  unfolding generated_def by (subst generate_loop.simps) simp

lemma bfs_single:
  "bfs_depth (mk_byId [root_node]) (mk_childrenMap [root_node]) [1] [root_node] = Some (Inr [root_node])"
  by (simp add: bfs_depth.simps mk_byId_def mk_childrenMap_def childrenMap_add_def kids_of_def
      root_node_def)

lemma layout_single: "layout [root_node] = [root_node]"
  by (simp add: layout_def mk_layers_def layout_layer_def place_def Let_def root_node_def
      rowGap_def colGapBase_def)

lemma mark_single: "mark_hasChildren [root_node] = [root_node\<lparr>hasChildren := False\<rparr>]"
  by (simp add: mark_hasChildren_def root_node_def)

lemma generateTree_le1:
  assumes "total_n \<le> 1"
  shows "generateTree total_n mc seed = Some (Inr [root_node\<lparr>hasChildren := False\<rparr>])"
proof -
  have g: "g_nodes (generate_loop total_n mc 2
       \<lparr>g_nodes = [root_node], g_childCount = [1 \<mapsto> 0], g_rng = randSeeded seed\<rparr>) = [root_node]"
    using generated_le1 [OF assms] by (simp add: generated_def)
  have r0: "[root_node][0 := ([root_node] ! 0)\<lparr>depth := 0\<rparr>] = [root_node]"
    by (simp add: root_node_def)
  show ?thesis
    unfolding generateTree_def Let_def g r0 bfs_single
    by (simp add: layout_single mark_single)
qed


lemma wf_one_root:
  assumes "wf_tree ns"
  shows "filter (\<lambda>m. parentId m = None) ns = [hd ns]"
proof -
  obtain x xs where ns: "ns = x # xs" using assms by (cases ns) (simp_all add: wf_tree_def)
  have "parentId x = None" using assms ns by (simp add: wf_tree_def)
  moreover have "\<forall>m\<in>set xs. parentId m \<noteq> None"
    using assms ns by (auto simp: wf_tree_def list_all_iff split: option.splits)
  ultimately show ?thesis using ns by (simp add: filter_empty_conv)
qed

lemma wf_tree_shape:
  assumes wf: "wf_tree ns"
  shows "\<forall>m\<in>set ns. \<forall>p. parentId m = Some p \<longrightarrow>
           p < node_id m \<and> (\<exists>pn\<in>set ns. node_id pn = p \<and> mk_nodesById ns p = Some pn
              \<and> depth m = depth pn + 1)"
    and "\<forall>m\<in>set ns. \<not> is_ancestor (mk_nodesById ns) (node_id m) m"
    and "\<forall>m\<in>set ns. \<forall>l. parent_chain (mk_nodesById ns) m l \<longleftrightarrow> l = depth m"
proof -
  define e where "e = \<lparr>nodes = ns, maxDepth = 0, minAmt = 0, collapsed = {}, query = [], canvas = None\<rparr>"
  have ns: "nodes e = ns" and idx: "nodesById e = mk_nodesById ns"
    by (simp_all add: e_def nodesById_def)
  have wfe: "wf_tree (nodes e)" using wf ns by simp
  show "\<forall>m\<in>set ns. \<forall>p. parentId m = Some p \<longrightarrow>
           p < node_id m \<and> (\<exists>pn\<in>set ns. node_id pn = p \<and> mk_nodesById ns p = Some pn
              \<and> depth m = depth pn + 1)"
  proof (intro ballI allI impI)
    fix m p assume m: "m \<in> set ns" and p: "parentId m = Some p"
    obtain a where a: "a < length (nodes e)" "m = nodes e ! a"
      using m ns by (auto elim: in_set_nodes)
    have pos: "0 < a" using p a wf_treeD(3) [OF wfe] by (cases a) simp_all
    obtain p' where p': "parentId (nodes e ! a) = Some p'" "1 \<le> p'" "p' \<le> a"
      "depth (nodes e ! a) = depth (nodes e ! (p' - 1)) + 1"
      "nodesById e p' = Some (nodes e ! (p' - 1))"
      using wf_tree_parent [OF wfe a(1) pos] by blast
    have pp: "p' = p" using p'(1) p a(2) by simp
    have pl: "p - 1 < length (nodes e)" using p'(2,3) a(1) pp by simp
    have id_m: "node_id m = Suc a" using wf_treeD(2) [OF wfe] a by simp
    have id_p: "node_id (nodes e ! (p - 1)) = p" using wf_treeD(2) [OF wfe] pl p'(2) pp by simp
    have mem: "nodes e ! (p - 1) \<in> set ns" using pl ns nth_mem by fastforce
    have "p < node_id m" using id_m p'(3) pp by simp
    moreover have "mk_nodesById ns p = Some (nodes e ! (p - 1))" using p'(5) pp idx by simp
    moreover have "depth m = depth (nodes e ! (p - 1)) + 1" using p'(4) pp a(2) by simp
    ultimately show "p < node_id m \<and> (\<exists>pn\<in>set ns. node_id pn = p \<and> mk_nodesById ns p = Some pn
              \<and> depth m = depth pn + 1)"
      using mem id_p by blast
  qed
  show "\<forall>m\<in>set ns. \<not> is_ancestor (mk_nodesById ns) (node_id m) m"
    using not_own_ancestor [OF wfe] ns idx by simp
  show "\<forall>m\<in>set ns. \<forall>l. parent_chain (mk_nodesById ns) m l \<longleftrightarrow> l = depth m"
  proof (intro ballI allI)
    fix m l assume "m \<in> set ns"
    then obtain a where a: "a < length (nodes e)" "m = nodes e ! a"
      using ns by (auto elim: in_set_nodes)
    have pc: "parent_chain (mk_nodesById ns) m (depth m)"
      using parent_chain_depth [OF wfe a(1)] a(2) idx by simp
    show "parent_chain (mk_nodesById ns) m l \<longleftrightarrow> l = depth m"
    proof
      assume "parent_chain (mk_nodesById ns) m l"
      then show "l = depth m" using pc by (rule parent_chain_unique)
    next
      assume "l = depth m"
      then show "parent_chain (mk_nodesById ns) m l" using pc by simp
    qed
  qed
qed

text \<open>
  C3. For \<open>total \<ge> 1\<close> and \<open>maxChildren \<ge> 1\<close> and any seed, \<open>generateTree\<close> returns a node
  list (its breadth-first loop ends and nothing throws) that is a well-formed rooted tree:
  the ids are \<open>1, \<dots>, total\<close>; exactly one node, the first, of id 1 and depth 0, has no
  parent; the parent id of every other node is smaller than the node's id and is the id of
  a node of the list, whose depth is one less; no id is met on its own parent chain; and
  the parent chain of every node has exactly as many steps as the node's depth says.
\<close>

theorem generateTree_well_formed:
  assumes "1 \<le> total_n" and "1 \<le> maxChildren"
  shows "\<exists>ns. generateTree total_n maxChildren seed = Some (Inr ns)
      \<and> map node_id ns = [1..<Suc (nat total_n)]
      \<and> filter (\<lambda>m. parentId m = None) ns = [hd ns] \<and> node_id (hd ns) = 1 \<and> depth (hd ns) = 0
      \<and> (\<forall>m\<in>set ns. \<forall>p. parentId m = Some p \<longrightarrow>
            p < node_id m \<and> (\<exists>pn\<in>set ns. node_id pn = p \<and> mk_nodesById ns p = Some pn
              \<and> depth m = depth pn + 1))
      \<and> (\<forall>m\<in>set ns. \<not> is_ancestor (mk_nodesById ns) (node_id m) m)
      \<and> (\<forall>m\<in>set ns. \<forall>l. parent_chain (mk_nodesById ns) m l \<longleftrightarrow> l = depth m)"
proof -
  obtain ns where ns: "generateTree total_n maxChildren seed = Some (Inr ns)" "wf_tree ns"
      "int (length ns) = max 1 total_n"
    using generateTree_result [of total_n maxChildren seed] by blast
  have len: "length ns = nat total_n" using ns(3) assms(1) by simp
  have ids: "map node_id ns = [1..<Suc (nat total_n)]"
    using ns(2) len by (simp add: wf_tree_def)
  have ne: "ns \<noteq> []" using ns(2) by (simp add: wf_tree_def)
  have hd: "node_id (hd ns) = 1" "depth (hd ns) = 0"
    using wf_treeD(2,4) [OF ns(2)] ne by (simp_all add: hd_conv_nth)
  show ?thesis
    by (intro exI [of _ ns] conjI)
      (fact ns(1) ids wf_one_root [OF ns(2)] hd wf_tree_shape [OF ns(2)])+
qed

theorem generateTree_well_formed_witness:
  "(1::int) \<le> 2 \<and> (1::int) \<le> 4
   \<and> (\<exists>ns. generateTree 2 4 1 = Some (Inr ns)
      \<and> map node_id ns = [1..<Suc (nat 2)]
      \<and> filter (\<lambda>m. parentId m = None) ns = [hd ns] \<and> node_id (hd ns) = 1 \<and> depth (hd ns) = 0
      \<and> (\<forall>m\<in>set ns. \<forall>p. parentId m = Some p \<longrightarrow>
            p < node_id m \<and> (\<exists>pn\<in>set ns. node_id pn = p \<and> mk_nodesById ns p = Some pn
              \<and> depth m = depth pn + 1))
      \<and> (\<forall>m\<in>set ns. \<not> is_ancestor (mk_nodesById ns) (node_id m) m)
      \<and> (\<forall>m\<in>set ns. \<forall>l. parent_chain (mk_nodesById ns) m l \<longleftrightarrow> l = depth m))"
proof -
  have h1: "(1::int) \<le> 2" and h2: "(1::int) \<le> 4" by simp_all
  show ?thesis
    using h1 h2 generateTree_well_formed [OF h1 h2, of 1] by (intro conjI)
qed


lemma pickParentId_tries_single:
  assumes "int (childCount_get cc 1) < mc"
  shows "pickParentId_tries mc 1 cc (Suc k) pid s = (1, snd (rnd s))"
proof -
  obtain r s' where r: "rnd s = (r, s')" by (cases "rnd s")
  have one: "nat (max 1 (min (int 1) (1 + \<lfloor>(r powr 1.2) * real (1::nat)\<rfloor>))) = 1"
    by (simp add: max_def min_def)
  show ?thesis
    unfolding pickParentId_tries.simps r Let_def prod.case one using assms by simp
qed

lemma pickParentId_first:
  "pickParentId 4 \<lparr>g_nodes = [root_node], g_childCount = [1 \<mapsto> 0], g_rng = randSeeded 1\<rparr>
     = (1, \<lparr>g_nodes = [root_node], g_childCount = [1 \<mapsto> 1], g_rng = 1015568748\<rparr>)"
proof -
  have t: "pickParentId_tries 4 1 [1 \<mapsto> 0] (Suc 7) 1 (randSeeded 1) = (1, snd (rnd (randSeeded 1)))"
    by (rule pickParentId_tries_single) (simp add: childCount_get_def)
  have s1: "snd (rnd (randSeeded 1)) = 1015568748" by (simp add: rnd_def randSeeded_def)
  show ?thesis
    using t [unfolded s1] by (simp add: pickParentId_def childCount_get_def)
qed

lemma generated_2_4_1:
  "map level (generated 2 4 1) = [''A'', ''C'']"
proof -
  let ?g0 = "\<lparr>g_nodes = [root_node], g_childCount = [1 \<mapsto> 0], g_rng = randSeeded 1\<rparr>"
  have lv: "gen_level 1015568748 = (''C'', 3027450565)" by (simp add: gen_level_def rnd_def)
  have n: "map level (g_nodes (generate_node 4 2 ?g0)) = [''A'', ''C'']"
    unfolding generate_node_def pickParentId_first Let_def prod.case gen_state.simps lv
    by (simp add: root_node_def split: prod.splits)
  have l: "generate_loop 2 4 2 ?g0 = generate_node 4 2 ?g0"
    by (subst generate_loop.simps, simp, subst generate_loop.simps, simp)
  show ?thesis unfolding generated_def l by (rule n)
qed

text \<open>
  C6 fails on the code. For \<^verbatim>\<open>generateTree(2, 4, 1)\<close> the generator is in state 1015568748 when
  the level of node 2 is chosen. Its next draw is about 0.369, which the rule of one draw and
  cumulative thresholds maps to level A. The code finds it not below 0.15 and draws again for
  the test against 0.4 (about 0.504), and again for the test against 0.7 (about 0.705): node
  2 gets level C.
\<close>

theorem level_takes_a_draw_per_test:
  "g_rng (snd (pickParentId 4 \<lparr>g_nodes = [root_node], g_childCount = [1 \<mapsto> 0], g_rng = randSeeded 1\<rparr>))
      = 1015568748
   \<and> level_of_draw (fst (rnd 1015568748)) = ''A''
   \<and> gen_level 1015568748 = (''C'', 3027450565)
   \<and> snd (rnd (snd (rnd (snd (rnd 1015568748))))) = 3027450565
   \<and> (\<exists>ns. generateTree 2 4 1 = Some (Inr ns) \<and> map level ns = [''A'', ''C''])"
proof -
  have c1: "g_rng (snd (pickParentId 4 \<lparr>g_nodes = [root_node], g_childCount = [1 \<mapsto> 0], g_rng = randSeeded 1\<rparr>))
      = 1015568748"
    unfolding pickParentId_first by simp
  have c2: "level_of_draw (fst (rnd 1015568748)) = ''A''"
    by (simp add: level_of_draw_def rnd_def)
  have c3: "gen_level 1015568748 = (''C'', 3027450565)"
    by (simp add: gen_level_def rnd_def)
  have c4: "snd (rnd (snd (rnd (snd (rnd 1015568748))))) = 3027450565"
    by (simp add: rnd_def)
  obtain ns where ns: "generateTree 2 4 1 = Some (Inr ns)" "map level ns = map level (generated 2 4 1)"
    using generateTree_result [of 2 4 1] by blast
  have c5: "\<exists>ns. generateTree 2 4 1 = Some (Inr ns) \<and> map level ns = [''A'', ''C'']"
    using ns generated_2_4_1 by simp
  show ?thesis by (intro conjI) (fact c1 c2 c3 c4 c5)+
qed

text \<open>
  C9 fails on the code: \<^verbatim>\<open>generateTree(0, 4, 42)\<close> returns a node list, the single root.
\<close>

theorem generateTree_rejects_counterexample:
  "generateTree 0 4 42 = Some (Inr [root_node\<lparr>hasChildren := False\<rparr>])"
  by (rule generateTree_le1) simp

text \<open>
  C9, amended. \<open>generateTree\<close> checks nothing: for every \<open>total\<close>, \<open>maxChildren\<close> and seed it
  returns a node list, never an error; for \<open>total < 1\<close> the list is the single root node,
  the same as for \<open>total = 1\<close>.
\<close>

theorem generateTree_never_rejects:
  "(\<exists>ns. generateTree total_n maxChildren seed = Some (Inr ns))
   \<and> (total_n < 1 \<longrightarrow>
        generateTree total_n maxChildren seed = Some (Inr [root_node\<lparr>hasChildren := False\<rparr>])
      \<and> generateTree total_n maxChildren seed = generateTree 1 maxChildren seed)"
proof -
  have "\<exists>ns. generateTree total_n maxChildren seed = Some (Inr ns)"
    using generateTree_result [of total_n maxChildren seed] by blast
  moreover have "generateTree total_n maxChildren seed = Some (Inr [root_node\<lparr>hasChildren := False\<rparr>])
      \<and> generateTree total_n maxChildren seed = generateTree 1 maxChildren seed" if "total_n < 1"
    using that by (simp add: generateTree_le1)
  ultimately show ?thesis by blast
qed

theorem generateTree_never_rejects_witness:
  "(- 3 :: int) < 1
   \<and> generateTree (- 3) 0 7 = Some (Inr [root_node\<lparr>hasChildren := False\<rparr>])
   \<and> generateTree (- 3) 0 7 = generateTree 1 0 7"
proof -
  have h: "(- 3 :: int) < 1" by simp
  show ?thesis
    using h generateTree_never_rejects [of "- 3" 0 7] by blast
qed

text \<open>
  C5 fails on the code: with \<open>maxDepth = 0\<close> and a value filter of 50000 the root, whose value
  is 0, is not visible.
\<close>

theorem isVisible_maxDepth0_counterexample:
  "parentId (example_chain ! 0) = None
   \<and> maxDepth ((example_view example_chain)\<lparr>maxDepth := 0, minAmt := 50000\<rparr>) = 0
   \<and> isVisible ((example_view example_chain)\<lparr>maxDepth := 0, minAmt := 50000\<rparr>) (example_chain ! 0) = Inr False"
  by (simp add: isVisible_def example_view_def example_chain_def)

text \<open>
  C5, amended. For the nodes that \<open>generateTree\<close> returns and \<open>maxDepth = 0\<close>: \<open>isVisible\<close>
  is false for every node but the root, for every collapse set and every \<open>minAmt\<close>; for the
  root, whose value is 0, it is true exactly when \<open>minAmt \<le> 0\<close>, for every collapse set.
\<close>

theorem isVisible_maxDepth0:
  assumes "generateTree total_n maxChildren seed = Some (Inr (nodes e))"
    and "maxDepth e = 0" and "n \<in> set (nodes e)"
  shows "isVisible e n = Inr (node_id n = 1 \<and> minAmt e \<le> 0)
       \<and> (node_id n = 1 \<longleftrightarrow> parentId n = None)"
proof -
  obtain ns where ns: "generateTree total_n maxChildren seed = Some (Inr ns)" "wf_tree ns"
      "map node_value ns = map node_value (generated total_n maxChildren seed)"
    using generateTree_result [of total_n maxChildren seed] by blast
  have eq: "nodes e = ns" using ns(1) assms(1) by simp
  have wf: "wf_tree (nodes e)" using ns(2) eq by simp
  obtain a where a: "a < length (nodes e)" "n = nodes e ! a" using assms(3) by (rule in_set_nodes)
  have id: "node_id n = Suc a" using wf_treeD(2) [OF wf] a by simp
  have pos: "0 < length ns" using a(1) eq by (cases ns) simp_all
  have "node_value (nodes e ! 0) = map node_value ns ! 0" using pos eq by simp
  also have "\<dots> = map node_value (generated total_n maxChildren seed) ! 0" by (simp only: ns(3))
  also have "\<dots> = node_value (generated total_n maxChildren seed ! 0)"
    using generated_inv(1) [of total_n maxChildren seed] by (simp add: gen_inv_def)
  also have "\<dots> = 0" by (simp add: generated_root root_node_def)
  finally have v0: "node_value (nodes e ! 0) = 0" .
  show ?thesis
  proof (cases "a = 0")
    case True
    have root: "parentId n = None" "depth n = 0"
      using wf_treeD(3,4) [OF wf] a(2) True by simp_all
    have "isVisible e n = Inr (minAmt e \<le> 0)"
      unfolding isVisible_wf [OF wf assms(3)]
      using root v0 a(2) True assms(2) by (simp add: is_ancestor_root)
    then show ?thesis using id True root by simp
  next
    case False
    then have pos': "0 < a" by simp
    obtain p where p: "parentId (nodes e ! a) = Some p"
      "depth (nodes e ! a) = depth (nodes e ! (p - 1)) + 1"
      using wf_tree_parent [OF wf a(1) pos'] by blast
    have "isVisible e n = Inr False"
      unfolding isVisible_wf [OF wf assms(3)] using p(2) a(2) assms(2) by simp
    then show ?thesis using id False p(1) a(2) by simp
  qed
qed

theorem isVisible_maxDepth0_witness:
  "generateTree 1 4 42 = Some (Inr (nodes \<lparr>nodes = [root_node\<lparr>hasChildren := False\<rparr>], maxDepth = 0,
       minAmt = 0, collapsed = {1}, query = [], canvas = None\<rparr>))
   \<and> maxDepth \<lparr>nodes = [root_node\<lparr>hasChildren := False\<rparr>], maxDepth = 0,
       minAmt = 0, collapsed = {1}, query = [], canvas = None\<rparr> = 0
   \<and> root_node\<lparr>hasChildren := False\<rparr> \<in> set (nodes \<lparr>nodes = [root_node\<lparr>hasChildren := False\<rparr>], maxDepth = 0,
       minAmt = 0, collapsed = {1}, query = [], canvas = None\<rparr>)
   \<and> isVisible \<lparr>nodes = [root_node\<lparr>hasChildren := False\<rparr>], maxDepth = 0,
       minAmt = 0, collapsed = {1}, query = [], canvas = None\<rparr> (root_node\<lparr>hasChildren := False\<rparr>) = Inr True"
proof -
  let ?e = "\<lparr>nodes = [root_node\<lparr>hasChildren := False\<rparr>], maxDepth = 0,
       minAmt = 0, collapsed = {1}, query = [], canvas = None\<rparr>"
  have h1: "generateTree 1 4 42 = Some (Inr (nodes ?e))" by (simp add: generateTree_le1)
  have h2: "maxDepth ?e = 0" by simp
  have h3: "root_node\<lparr>hasChildren := False\<rparr> \<in> set (nodes ?e)" by simp
  have "isVisible ?e (root_node\<lparr>hasChildren := False\<rparr>) = Inr True"
    using isVisible_maxDepth0 [OF h1 h2 h3] by (simp add: root_node_def)
  then show ?thesis using h1 h2 h3 by (intro conjI)
qed

section \<open>Fitting, focusing and the camera scale\<close>

lemma visible_bounds_none:
  "\<forall>m\<in>set ms. isVisible e m = Inr False \<Longrightarrow> visible_bounds e ms b = Inr b"
  by (induction ms arbitrary: b) simp_all

lemma bounds_add_covers:
  obtains minX maxX minY maxY where "bounds_add m b = Some (minX, maxX, minY, maxY)"
    "minX \<le> node_x m" "node_x m \<le> maxX" "minY \<le> node_y m" "node_y m \<le> maxY"
    "\<And>a0 a1 a2 a3. b = Some (a0, a1, a2, a3) \<Longrightarrow> minX \<le> a0 \<and> a1 \<le> maxX \<and> minY \<le> a2 \<and> a3 \<le> maxY"
proof (cases b)
  case None
  then show ?thesis using that [of "node_x m" "node_x m" "node_y m" "node_y m"]
    by (simp add: bounds_add_def)
next
  case (Some B)
  obtain a0 a1 a2 a3 where B: "B = (a0, a1, a2, a3)" by (cases B)
  show ?thesis
    using that [of "min a0 (node_x m)" "max a1 (node_x m)" "min a2 (node_y m)" "max a3 (node_y m)"]
    by (simp add: bounds_add_def Some B)
qed

lemma visible_bounds_widen:
  "visible_bounds e ms (Some (a0, a1, a2, a3)) = Inr r \<Longrightarrow>
     \<exists>minX maxX minY maxY. r = Some (minX, maxX, minY, maxY)
        \<and> minX \<le> a0 \<and> a1 \<le> maxX \<and> minY \<le> a2 \<and> a3 \<le> maxY"
proof (induction ms arbitrary: a0 a1 a2 a3)
  case Nil
  then show ?case by auto
next
  case (Cons x xs)
  obtain v where v: "isVisible e x = Inr v"
    using Cons.prems by (cases "isVisible e x") simp_all
  show ?case
  proof (cases v)
    case False
    then show ?thesis using Cons.IH [of a0 a1 a2 a3] Cons.prems v by simp
  next
    case True
    obtain b0 b1 b2 b3 where b: "bounds_add x (Some (a0, a1, a2, a3)) = Some (b0, b1, b2, b3)"
      "b0 \<le> a0 \<and> a1 \<le> b1 \<and> b2 \<le> a2 \<and> a3 \<le> b3"
      using bounds_add_covers [of x "Some (a0, a1, a2, a3)"] by metis
    have "visible_bounds e xs (Some (b0, b1, b2, b3)) = Inr r"
      using Cons.prems v True b(1) by simp
    then obtain minX maxX minY maxY where "r = Some (minX, maxX, minY, maxY)"
        "minX \<le> b0 \<and> b1 \<le> maxX \<and> minY \<le> b2 \<and> b3 \<le> maxY"
      using Cons.IH [of b0 b1 b2 b3] by blast
    then show ?thesis using b(2) by auto
  qed
qed

lemma visible_bounds_cover:
  "visible_bounds e ms b = Inr (Some (minX, maxX, minY, maxY)) \<Longrightarrow> m \<in> set ms \<Longrightarrow>
     isVisible e m = Inr True \<Longrightarrow>
     minX \<le> node_x m \<and> node_x m \<le> maxX \<and> minY \<le> node_y m \<and> node_y m \<le> maxY"
proof (induction ms arbitrary: b)
  case Nil
  then show ?case by simp
next
  case (Cons x xs)
  obtain v where v: "isVisible e x = Inr v"
    using Cons.prems(1) by (cases "isVisible e x") simp_all
  show ?case
  proof (cases "m = x")
    case True
    then have vt: "v" using v Cons.prems(3) by simp
    obtain b0 b1 b2 b3 where b: "bounds_add x b = Some (b0, b1, b2, b3)"
      "b0 \<le> node_x x" "node_x x \<le> b1" "b2 \<le> node_y x" "node_y x \<le> b3"
      using bounds_add_covers [of x b] by metis
    have "visible_bounds e xs (Some (b0, b1, b2, b3)) = Inr (Some (minX, maxX, minY, maxY))"
      using Cons.prems(1) v vt b(1) by simp
    then have "minX \<le> b0 \<and> b1 \<le> maxX \<and> minY \<le> b2 \<and> b3 \<le> maxY"
      using visible_bounds_widen [of e xs b0 b1 b2 b3] by auto
    then show ?thesis using b True by auto
  next
    case False
    then have mx: "m \<in> set xs" using Cons.prems(2) by simp
    show ?thesis
    proof (cases v)
      case True
      then have "visible_bounds e xs (bounds_add x b) = Inr (Some (minX, maxX, minY, maxY))"
        using Cons.prems(1) v by simp
      then show ?thesis using Cons.IH mx Cons.prems(3) by blast
    next
      case False
      then have "visible_bounds e xs b = Inr (Some (minX, maxX, minY, maxY))"
        using Cons.prems(1) v by simp
      then show ?thesis using Cons.IH mx Cons.prems(3) by blast
    qed
  qed
qed

lemma fit_axis:
  fixes v lo hi W pad s :: real
  assumes v: "lo \<le> v" "v \<le> hi" and s: "0 \<le> s" "s \<le> (W - pad * 2) / max 1 (hi - lo)"
  shows "pad \<le> v * s + (W / 2 - (lo + hi) / 2 * s) \<and> v * s + (W / 2 - (lo + hi) / 2 * s) \<le> W - pad"
proof -
  define w where "w = max 1 (hi - lo)"
  have w: "0 < w" "hi - lo \<le> w" by (simp_all add: w_def)
  have "s * w \<le> (W - pad * 2) / w * w"
    using s(2) w(1) unfolding w_def [symmetric] by (intro mult_right_mono) simp_all
  then have sw: "s * w \<le> W - pad * 2" using w(1) by simp
  have "s * (hi - lo) \<le> s * w" using s(1) w(2) by (rule mult_left_mono [rotated])
  then have span: "s * (hi - lo) \<le> W - pad * 2" using sw by simp
  have "v - (lo + hi) / 2 \<le> (hi - lo) / 2" using v by (simp add: field_simps)
  then have up: "s * (v - (lo + hi) / 2) \<le> s * ((hi - lo) / 2)"
    using s(1) by (rule mult_left_mono)
  have "- ((hi - lo) / 2) \<le> v - (lo + hi) / 2" using v by (simp add: field_simps)
  then have dn: "s * (- ((hi - lo) / 2)) \<le> s * (v - (lo + hi) / 2)"
    using s(1) by (rule mult_left_mono)
  have e: "v * s + (W / 2 - (lo + hi) / 2 * s) = W / 2 + s * (v - (lo + hi) / 2)"
    by (simp add: algebra_simps)
  have h1: "s * ((hi - lo) / 2) = s * (hi - lo) / 2" by simp
  have h2: "s * (- ((hi - lo) / 2)) = - (s * (hi - lo) / 2)" by simp
  show ?thesis
    unfolding e using up dn span unfolding h1 h2 by linarith
qed


text \<open>
  C4 fails on the code. The root with two children, a canvas 150 wide and 600 high, padding
  60: the bounding box is 600 wide, the fitting scale 0.05 is raised to the minimum 0.1, and
  node 2 lands at x = 45, left of the padding.
\<close>

theorem fitToContent_inside_counterexample:
  "isVisible ((example_view example_fan)\<lparr>canvas := Some \<lparr>rect_left = 0, rect_top = 0, rect_width = 150, rect_height = 600\<rparr>\<rparr>)
      (example_fan ! 1) = Inr True
   \<and> fitToContent ((example_view example_fan)\<lparr>canvas := Some \<lparr>rect_left = 0, rect_top = 0, rect_width = 150, rect_height = 600\<rparr>\<rparr>)
        transform_init 60 = Inr \<lparr>scale = 0.1, tx = 75, ty = 294\<rparr>
   \<and> worldToScreen \<lparr>scale = 0.1, tx = 75, ty = 294\<rparr> (node_x (example_fan ! 1)) (node_y (example_fan ! 1)) = (45, 306)
   \<and> (45::real) < 60"
  by (simp add: fitToContent_def example_view_def example_fan_def bounds_add_def worldToScreen_def
      isVisible_def isVisible_loop.simps nodesById_def mk_nodesById_def Let_def)

text \<open>
  C4, amended. When some node is visible and the scale that fits the bounding box of the
  visible nodes into the padded viewport is at least the minimum scale 0.1 on both axes, the
  camera set by \<open>fitToContent\<close> maps every visible node into
  \<open>[pad, width - pad] \<times> [pad, height - pad]\<close>, in exact arithmetic over the real numbers.
\<close>

theorem fitToContent_inside:
  assumes "canvas e = Some r"
    and "visible_bounds e (nodes e) None = Inr (Some (minX, maxX, minY, maxY))"
    and "0.1 \<le> (rect_width r - padPx * 2) / max 1 (maxX - minX)"
    and "0.1 \<le> (rect_height r - padPx * 2) / max 1 (maxY - minY)"
    and "m \<in> set (nodes e)" and "isVisible e m = Inr True"
  shows "\<exists>t'. fitToContent e t padPx = Inr t'
     \<and> padPx \<le> fst (worldToScreen t' (node_x m) (node_y m))
     \<and> fst (worldToScreen t' (node_x m) (node_y m)) \<le> rect_width r - padPx
     \<and> padPx \<le> snd (worldToScreen t' (node_x m) (node_y m))
     \<and> snd (worldToScreen t' (node_x m) (node_y m)) \<le> rect_height r - padPx"
proof -
  define sx where "sx = (rect_width r - padPx * 2) / max 1 (maxX - minX)"
  define sy where "sy = (rect_height r - padPx * 2) / max 1 (maxY - minY)"
  define s where "s = max 0.1 (min 2.5 (min sx sy))"
  define t' where "t' = \<lparr>scale = s, tx = rect_width r / 2 - (minX + maxX) / 2 * s,
                          ty = rect_height r / 2 - (minY + maxY) / 2 * s\<rparr>"
  have fit: "fitToContent e t padPx = Inr t'"
    by (simp add: fitToContent_def assms(1,2) Let_def t'_def s_def sx_def sy_def)
  have lo: "0.1 \<le> sx" "0.1 \<le> sy" using assms(3,4) by (simp_all add: sx_def sy_def)
  have s: "0 \<le> s" "s \<le> sx" "s \<le> sy" using lo by (simp_all add: s_def)
  have cover: "minX \<le> node_x m \<and> node_x m \<le> maxX \<and> minY \<le> node_y m \<and> node_y m \<le> maxY"
    by (rule visible_bounds_cover [OF assms(2,5,6)])
  have x: "padPx \<le> node_x m * s + (rect_width r / 2 - (minX + maxX) / 2 * s)
      \<and> node_x m * s + (rect_width r / 2 - (minX + maxX) / 2 * s) \<le> rect_width r - padPx"
    using cover s(1,2) unfolding sx_def by (intro fit_axis) simp_all
  have y: "padPx \<le> node_y m * s + (rect_height r / 2 - (minY + maxY) / 2 * s)
      \<and> node_y m * s + (rect_height r / 2 - (minY + maxY) / 2 * s) \<le> rect_height r - padPx"
    using cover s(1,3) unfolding sy_def by (intro fit_axis) simp_all
  show ?thesis
    using fit x y by (simp add: worldToScreen_def t'_def)
qed

theorem fitToContent_inside_witness:
  "canvas (example_view example_fan) = Some \<lparr>rect_left = 0, rect_top = 0, rect_width = 800, rect_height = 600\<rparr>
   \<and> visible_bounds (example_view example_fan) (nodes (example_view example_fan)) None
        = Inr (Some (- 300, 300, 0, 120))
   \<and> (0.1::real) \<le> (800 - 60 * 2) / max 1 (300 - (- 300))
   \<and> (0.1::real) \<le> (600 - 60 * 2) / max 1 (120 - 0)
   \<and> example_fan ! 1 \<in> set (nodes (example_view example_fan))
   \<and> isVisible (example_view example_fan) (example_fan ! 1) = Inr True
   \<and> (\<exists>t'. fitToContent (example_view example_fan) transform_init 60 = Inr t'
     \<and> 60 \<le> fst (worldToScreen t' (node_x (example_fan ! 1)) (node_y (example_fan ! 1)))
     \<and> fst (worldToScreen t' (node_x (example_fan ! 1)) (node_y (example_fan ! 1))) \<le> 800 - 60
     \<and> 60 \<le> snd (worldToScreen t' (node_x (example_fan ! 1)) (node_y (example_fan ! 1)))
     \<and> snd (worldToScreen t' (node_x (example_fan ! 1)) (node_y (example_fan ! 1))) \<le> 600 - 60)"
proof -
  let ?e = "example_view example_fan"
  let ?r = "\<lparr>rect_left = 0, rect_top = 0, rect_width = 800, rect_height = 600\<rparr>"
  have h1: "canvas ?e = Some ?r" by (simp add: example_view_def)
  have vis: "isVisible ?e (example_fan ! 0) = Inr True" "isVisible ?e (example_fan ! 1) = Inr True"
    "isVisible ?e (example_fan ! 2) = Inr True"
    by (simp_all add: isVisible_def isVisible_loop.simps nodesById_def mk_nodesById_def
        example_view_def example_fan_def)
  have h2: "visible_bounds ?e (nodes ?e) None = Inr (Some (- 300, 300, 0, 120))"
    by (simp add: example_view_def example_fan_def bounds_add_def
        isVisible_def isVisible_loop.simps nodesById_def mk_nodesById_def)
  have h3: "(0.1::real) \<le> (rect_width ?r - 60 * 2) / max 1 (300 - (- 300))" by simp
  have h4: "(0.1::real) \<le> (rect_height ?r - 60 * 2) / max 1 (120 - 0)" by simp
  have h5: "example_fan ! 1 \<in> set (nodes ?e)" by (simp add: example_view_def example_fan_def)
  note t = fitToContent_inside [OF h1 h2 h3 h4 h5 vis(2), of transform_init]
  show ?thesis
    using h1 h2 h5 vis(2) t by simp
qed


lemma fitToContent_nothing_visible:
  assumes "\<forall>m\<in>set (nodes e). isVisible e m = Inr False"
  shows "fitToContent e t padPx = Inr t"
  by (simp add: fitToContent_def visible_bounds_none [OF assms] split: option.splits)

lemma focusOnFirstMatch_filters [simp]:
  "focusOnFirstMatch toLowerCase (e\<lparr>maxDepth := d, minAmt := a, collapsed := S\<rparr>) t
     = focusOnFirstMatch toLowerCase e t"
  by (simp add: focusOnFirstMatch_def Let_def split: option.splits)

text \<open>
  C8 fails on the code. With the value filter above every value no node of the chain is
  visible, and still \<open>focusOnFirstMatch\<close> with the search text "root" finds the root and moves
  the camera from \<open>(0.6, 0, 80)\<close> to \<open>(0.6, 400, 150)\<close>.
\<close>

theorem focus_on_hidden_node_counterexample:
  "map (isVisible ((example_view example_chain)\<lparr>minAmt := 200000, query := units ''root''\<rparr>))
       (nodes ((example_view example_chain)\<lparr>minAmt := 200000, query := units ''root''\<rparr>))
     = [Inr False, Inr False, Inr False]
   \<and> focusOnFirstMatch lower_ascii
        ((example_view example_chain)\<lparr>minAmt := 200000, query := units ''root''\<rparr>) transform_init
     = Inr \<lparr>scale = 0.6, tx = 400, ty = 150\<rparr>
   \<and> \<lparr>scale = 0.6, tx = 400, ty = 150\<rparr> \<noteq> transform_init"
  by (simp add: focusOnFirstMatch_def example_view_def example_chain_def transform_init_def
      units_def lower_ascii_def trim_def is_space_def Let_def isVisible_def)

text \<open>
  C8, amended. When no node is visible, \<open>fitToContent\<close> returns without error and leaves the
  camera as it is. \<open>focusOnFirstMatch\<close> does not look at visibility (its result does not
  depend on \<open>maxDepth\<close>, \<open>minAmt\<close> or the collapse set): it returns without error and leaves
  the camera as it is when the trimmed search text is empty or matches no node. This holds
  whatever function the host's \<^verbatim>\<open>toLowerCase\<close> is.
\<close>

theorem noop_on_empty_or_miss:
  "((\<forall>m\<in>set (nodes e). isVisible e m = Inr False) \<longrightarrow> fitToContent e t padPx = Inr t)
   \<and> (toLowerCase (trim (query e)) = [] \<longrightarrow> focusOnFirstMatch toLowerCase e t = Inr t)
   \<and> (find (\<lambda>m. includes_str (toLowerCase (units (name m))) (toLowerCase (trim (query e)))
                \<or> units (String_nat (node_id m)) = toLowerCase (trim (query e))) (nodes e) = None
        \<longrightarrow> focusOnFirstMatch toLowerCase e t = Inr t)
   \<and> focusOnFirstMatch toLowerCase (e\<lparr>maxDepth := d, minAmt := a, collapsed := S\<rparr>) t
        = focusOnFirstMatch toLowerCase e t"
proof -
  have "focusOnFirstMatch toLowerCase e t = Inr t" if "toLowerCase (trim (query e)) = []"
    using that by (simp add: focusOnFirstMatch_def)
  moreover have "focusOnFirstMatch toLowerCase e t = Inr t"
    if "find (\<lambda>m. includes_str (toLowerCase (units (name m))) (toLowerCase (trim (query e)))
                \<or> units (String_nat (node_id m)) = toLowerCase (trim (query e))) (nodes e) = None"
    using that by (simp add: focusOnFirstMatch_def Let_def)
  ultimately show ?thesis
    using fitToContent_nothing_visible [of e t padPx] focusOnFirstMatch_filters
    by blast
qed

theorem noop_on_empty_or_miss_witness:
  "map (isVisible ((example_view example_chain)\<lparr>minAmt := 200000\<rparr>))
       (nodes ((example_view example_chain)\<lparr>minAmt := 200000\<rparr>))
     = [Inr False, Inr False, Inr False]
   \<and> fitToContent ((example_view example_chain)\<lparr>minAmt := 200000\<rparr>) transform_init 60 = Inr transform_init
   \<and> lower_ascii (trim (query ((example_view example_chain)\<lparr>minAmt := 200000, query := [160, 32, 8202]\<rparr>))) = []
   \<and> focusOnFirstMatch lower_ascii ((example_view example_chain)\<lparr>minAmt := 200000, query := [160, 32, 8202]\<rparr>)
        transform_init = Inr transform_init
   \<and> find (\<lambda>m. includes_str (lower_ascii (units (name m)))
                   (lower_ascii (trim (query ((example_view example_chain)\<lparr>query := units ''m9''\<rparr>))))
                \<or> units (String_nat (node_id m))
                   = lower_ascii (trim (query ((example_view example_chain)\<lparr>query := units ''m9''\<rparr>))))
         (nodes ((example_view example_chain)\<lparr>query := units ''m9''\<rparr>)) = None
   \<and> focusOnFirstMatch lower_ascii ((example_view example_chain)\<lparr>query := units ''m9''\<rparr>) transform_init
        = Inr transform_init"
proof -
  let ?e = "(example_view example_chain)\<lparr>minAmt := 200000\<rparr>"
  let ?f = "(example_view example_chain)\<lparr>minAmt := 200000, query := [160, 32, 8202]\<rparr>"
  let ?e' = "(example_view example_chain)\<lparr>query := units ''m9''\<rparr>"
  have v: "map (isVisible ?e) (nodes ?e) = [Inr False, Inr False, Inr False]"
    by (simp add: example_view_def example_chain_def isVisible_def)
  then have h1: "\<forall>m\<in>set (nodes ?e). isVisible ?e m = Inr False"
    by (simp add: example_view_def example_chain_def)
  have h2: "lower_ascii (trim (query ?f)) = []"
    by (simp add: example_view_def lower_ascii_def trim_def is_space_def)
  have h3: "find (\<lambda>m. includes_str (lower_ascii (units (name m))) (lower_ascii (trim (query ?e')))
                \<or> units (String_nat (node_id m)) = lower_ascii (trim (query ?e'))) (nodes ?e') = None"
    by (simp add: example_view_def example_chain_def units_def lower_ascii_def trim_def is_space_def
        String_nat.simps digit_char_def)
  note a = noop_on_empty_or_miss [of ?e transform_init 60 lower_ascii]
  note b = noop_on_empty_or_miss [of ?f transform_init 60 lower_ascii]
  note c = noop_on_empty_or_miss [of ?e' transform_init 60 lower_ascii]
  have c1: "fitToContent ?e transform_init 60 = Inr transform_init"
    using a h1 by blast
  have c2: "focusOnFirstMatch lower_ascii ?f transform_init = Inr transform_init"
    using b h2 by blast
  have c3: "focusOnFirstMatch lower_ascii ?e' transform_init = Inr transform_init"
    using c h3 by blast
  show ?thesis by (intro conjI) (fact v c1 h2 c2 h3 c3)+
qed

lemma onWheel_scale: "0.1 \<le> scale (onWheel t r deltaY clientX clientY) \<and> scale (onWheel t r deltaY clientX clientY) \<le> 3"
  by (simp add: onWheel_def Let_def zoomAt_scale)

lemma pan_scale: "scale (pan t dx dy) = scale t"
  by (simp add: pan_def)

lemma fitToContent_scale:
  assumes "fitToContent e t padPx = Inr t'"
  shows "t' = t \<or> 0.1 \<le> scale t' \<and> scale t' \<le> 2.5"
proof (cases "canvas e")
  case None
  then show ?thesis using assms by (simp add: fitToContent_def)
next
  case (Some r)
  show ?thesis
  proof (cases "visible_bounds e (nodes e) None")
    case (Inl err)
    then show ?thesis using assms Some by (simp add: fitToContent_def)
  next
    case (Inr b)
    show ?thesis
    proof (cases b)
      case None
      then show ?thesis using assms Some Inr by (simp add: fitToContent_def)
    next
      case (Some B)
      obtain minX maxX minY maxY where B: "B = (minX, maxX, minY, maxY)" by (cases B)
      define u where "u = min ((rect_width r - padPx * 2) / max 1 (maxX - minX))
                ((rect_height r - padPx * 2) / max 1 (maxY - minY))"
      have "scale t' = max 0.1 (min 2.5 u)"
        using assms \<open>canvas e = Some r\<close> Inr Some B by (auto simp: fitToContent_def Let_def u_def)
      then have "0.1 \<le> scale t' \<and> scale t' \<le> 2.5" by linarith
      then show ?thesis by simp
    qed
  qed
qed

lemma focusOnFirstMatch_scale:
  assumes "focusOnFirstMatch toLowerCase e t = Inr t'"
  shows "t' = t \<or> scale t' = max 0.6 (scale t)"
  using assms by (auto simp: focusOnFirstMatch_def Let_def split: if_splits option.splits)

lemma apply_op_scale:
  assumes "0.1 \<le> scale t \<and> scale t \<le> 3"
  shows "0.1 \<le> scale (apply_op toLowerCase t op) \<and> scale (apply_op toLowerCase t op) \<le> 3"
proof (cases op)
  case (Pan dx dy)
  then show ?thesis using assms by (simp add: pan_scale)
next
  case (Wheel r deltaY clientX clientY)
  then show ?thesis using onWheel_scale by simp
next
  case (Fit e padPx)
  show ?thesis
  proof (cases "fitToContent e t padPx")
    case (Inl err)
    then show ?thesis using assms Fit by simp
  next
    case (Inr t')
    then show ?thesis using fitToContent_scale [OF Inr] assms Fit by auto
  qed
next
  case (Focus e)
  show ?thesis
  proof (cases "focusOnFirstMatch toLowerCase e t")
    case (Inl err)
    then show ?thesis using assms Focus by simp
  next
    case (Inr t')
    then show ?thesis using focusOnFirstMatch_scale [OF Inr] assms Focus by auto
  qed
qed

lemma foldl_apply_op_scale:
  "0.1 \<le> scale t \<and> scale t \<le> 3 \<Longrightarrow>
     0.1 \<le> scale (foldl (apply_op toLowerCase) t ops)
       \<and> scale (foldl (apply_op toLowerCase) t ops) \<le> 3"
proof (induction ops arbitrary: t)
  case Nil
  then show ?case by simp
next
  case (Cons op ops)
  show ?case
    using Cons.IH [OF apply_op_scale [OF Cons.prems, of toLowerCase op]] by simp
qed

text \<open>
  C10. From the initial camera (scale 0.6), after any sequence of pans, wheel zooms, calls
  of \<open>fitToContent\<close> and calls of \<open>focusOnFirstMatch\<close>, in any states of the component, the
  scale is in \<open>[0.1, 3]\<close>. A pan keeps the scale; a wheel zoom sets it into \<open>[0.1, 3]\<close>;
  \<open>fitToContent\<close>, when it changes the camera, sets it into \<open>[0.1, 2.5]\<close>;
  \<open>focusOnFirstMatch\<close>, when it changes the camera, sets it to the larger of 0.6 and the old
  scale. This holds whatever function the host's \<^verbatim>\<open>toLowerCase\<close> is.
\<close>

theorem camera_scale_in_range:
  "0.1 \<le> scale (run_ops toLowerCase ops) \<and> scale (run_ops toLowerCase ops) \<le> 3
   \<and> scale (pan t dx dy) = scale t
   \<and> 0.1 \<le> scale (onWheel t r deltaY clientX clientY) \<and> scale (onWheel t r deltaY clientX clientY) \<le> 3
   \<and> (\<forall>t'. fitToContent e t padPx = Inr t' \<longrightarrow> t' = t \<or> 0.1 \<le> scale t' \<and> scale t' \<le> 2.5)
   \<and> (\<forall>t'. focusOnFirstMatch toLowerCase e t = Inr t' \<longrightarrow>
          t' = t \<or> scale t' = max 0.6 (scale t) \<and> 0.6 \<le> scale t')"
proof -
  have init: "0.1 \<le> scale transform_init \<and> scale transform_init \<le> 3"
    by (simp add: transform_init_def)
  have run: "0.1 \<le> scale (run_ops toLowerCase ops) \<and> scale (run_ops toLowerCase ops) \<le> 3"
    unfolding run_ops_def by (rule foldl_apply_op_scale [OF init])
  have focus: "\<forall>t'. focusOnFirstMatch toLowerCase e t = Inr t' \<longrightarrow>
      t' = t \<or> scale t' = max 0.6 (scale t) \<and> 0.6 \<le> scale t'"
    using focusOnFirstMatch_scale [of toLowerCase e t] by fastforce
  show ?thesis
    using run pan_scale [of t dx dy] onWheel_scale [of t r deltaY clientX clientY]
      fitToContent_scale [of e t padPx] focus by blast
qed

theorem camera_scale_in_range_witness:
  "0.1 \<le> scale (run_ops lower_ascii [Pan 10 5,
        Wheel \<lparr>rect_left = 0, rect_top = 0, rect_width = 800, rect_height = 600\<rparr> 0 15 27,
        Fit (example_view example_fan) 60,
        Focus ((example_view example_fan)\<lparr>query := units ''root''\<rparr>)])
   \<and> scale (run_ops lower_ascii [Pan 10 5,
        Wheel \<lparr>rect_left = 0, rect_top = 0, rect_width = 800, rect_height = 600\<rparr> 0 15 27,
        Fit (example_view example_fan) 60,
        Focus ((example_view example_fan)\<lparr>query := units ''root''\<rparr>)]) \<le> 3
   \<and> fitToContent (example_view example_fan) transform_init 60 = Inr \<lparr>scale = 17 / 15, tx = 400, ty = 232\<rparr>
   \<and> (0.1::real) \<le> 17 / 15 \<and> (17 / 15 :: real) \<le> 2.5
   \<and> focusOnFirstMatch lower_ascii ((example_view example_fan)\<lparr>query := units ''root''\<rparr>)
        \<lparr>scale = 0.2, tx = 0, ty = 0\<rparr>
        = Inr \<lparr>scale = 0.6, tx = 400, ty = 150\<rparr>
   \<and> scale (zoomAt transform_init 100 15 27) = 3"
proof -
  let ?ops = "[Pan 10 5,
        Wheel \<lparr>rect_left = 0, rect_top = 0, rect_width = 800, rect_height = 600\<rparr> 0 15 27,
        Fit (example_view example_fan) 60,
        Focus ((example_view example_fan)\<lparr>query := units ''root''\<rparr>)]"
  note t = camera_scale_in_range [of lower_ascii ?ops transform_init 0 0
      "\<lparr>rect_left = 0, rect_top = 0, rect_width = 800, rect_height = 600\<rparr>"
      0 0 0 "example_view example_fan" 60]
  have c1: "0.1 \<le> scale (run_ops lower_ascii ?ops)" and c2: "scale (run_ops lower_ascii ?ops) \<le> 3"
    using t by blast+
  have c3: "fitToContent (example_view example_fan) transform_init 60 = Inr \<lparr>scale = 17 / 15, tx = 400, ty = 232\<rparr>"
    by (simp add: fitToContent_def example_view_def example_fan_def bounds_add_def
        isVisible_def isVisible_loop.simps nodesById_def mk_nodesById_def Let_def)
  have c4: "focusOnFirstMatch lower_ascii ((example_view example_fan)\<lparr>query := units ''root''\<rparr>)
        \<lparr>scale = 0.2, tx = 0, ty = 0\<rparr>
        = Inr \<lparr>scale = 0.6, tx = 400, ty = 150\<rparr>"
    by (simp add: focusOnFirstMatch_def example_view_def example_fan_def
        units_def lower_ascii_def trim_def is_space_def Let_def)
  have c5: "scale (zoomAt transform_init 100 15 27) = 3"
    by (simp add: zoomAt_scale transform_init_def)
  show ?thesis using c1 c2 c3 c4 c5 by simp
qed

end
